theory Spec2Isabelle
  imports Complex_Main
begin

section \<open>Messages and library values\<close>

text \<open>
  The supervisor node of \<^verbatim>\<open>localization_benchmark_supervisor.py\<close> is embedded
  as functions on a record of the fields of \<^verbatim>\<open>LocalizationBenchmarkSupervisor\<close>.
  Floating-point numbers are read as reals. Files are the lists of what has been
  written to them, in order; the field \<^verbatim>\<open>unwritable\<close> of the state names the files
  that cannot be opened for writing, for which \<^verbatim>\<open>open\<close> raises \<^verbatim>\<open>IOError\<close>.
  Time stamps of the event log come from the ROS clock and are left out of the
  logged lines.
\<close>

record position =
  pos_x :: real
  pos_y :: real

record quaternion =
  quat_x :: real
  quat_y :: real
  quat_z :: real
  quat_w :: real

record pose =
  pose_position :: position
  pose_orientation :: quaternion

text \<open>\<^verbatim>\<open>PoseArray\<close>: the stamp already converted by \<^verbatim>\<open>to_sec()\<close>.\<close>

record pose_array =
  pa_stamp :: real
  pa_frame_id :: string
  pa_poses :: "pose list"

text \<open>
  \<^verbatim>\<open>Odometry\<close>: stamp, pose and the three twist components the recorder reads.
\<close>

record odometry =
  od_stamp :: real
  od_pose :: pose
  od_linear_x :: real
  od_linear_y :: real
  od_angular_z :: real

text \<open>\<^verbatim>\<open>LaserScan\<close>: the stamp and the fields the recorder writes.\<close>

record laser_scan =
  ls_stamp :: real
  ls_angle_min :: real
  ls_angle_max :: real
  ls_angle_increment :: real
  ls_range_min :: real
  ls_range_max :: real
  ls_ranges :: "real list"

text \<open>
  The transform \<^verbatim>\<open>lookup_transform\<close> returns: stamp, translation and rotation.
\<close>

record transform_stamped =
  tf_stamp :: real
  tf_translation_x :: real
  tf_translation_y :: real
  tf_rotation :: quaternion

text \<open>\<^verbatim>\<open>PoseWithCovarianceStamped\<close>: stamp, pose and the covariance array.\<close>

record pose_with_covariance =
  pc_stamp :: real
  pc_pose :: pose
  pc_covariance :: "real list"

text \<open>
  Two library functions are parameters of the model: Python's \<^verbatim>\<open>str\<close> on a float
  and pyquaternion's \<^verbatim>\<open>yaw_pitch_roll\<close> (its first component).
\<close>

record pylib =
  str_float :: "real \<Rightarrow> string"
  yaw_of :: "quaternion \<Rightarrow> real"

subsection \<open>Decimal rendering of integers\<close>

definition digit_char :: "nat \<Rightarrow> char" where
  "digit_char d = ''0123456789'' ! d"

fun str_nat :: "nat \<Rightarrow> string" where
  "str_nat n = (if n < 10 then [digit_char n] else str_nat (n div 10) @ [digit_char (n mod 10)])"

declare str_nat.simps [simp del]

definition str_int :: "int \<Rightarrow> string" where
  "str_int i = (if i < 0 then CHR ''-'' # str_nat (nat (- i)) else str_nat (nat i))"

definition zero_pad :: "nat \<Rightarrow> string \<Rightarrow> string" where
  "zero_pad w ds = replicate (w - length ds) CHR ''0'' @ ds"

text \<open>\<^verbatim>\<open>"{i:08d}".format(i=...)\<close>: the sign, when there is one, counts in the width.\<close>

definition format_08d :: "int \<Rightarrow> string" where
  "format_08d i = (if i < 0 then CHR ''-'' # zero_pad 7 (str_nat (nat (- i)))
                   else zero_pad 8 (str_nat (nat i)))"

text \<open>\<^verbatim>\<open>sep.join(strs)\<close>\<close>

fun join :: "string \<Rightarrow> string list \<Rightarrow> string" where
  "join sep [] = []"
| "join sep [s] = s"
| "join sep (s # t # ss) = s @ sep @ join sep (t # ss)"

section \<open>Exceptions\<close>

datatype exn =
    RunFailException string
  | KeyboardInterrupt
  | AttributeError
  | ValueError
  | KeyError
  | TypeError
  | PicklingError
  | IOError
  | OtherException string
  | SystemExit

section \<open>Process snapshots\<close>

text \<open>
  A value of a process dictionary is an integer, a string, or a value at which
  \<^verbatim>\<open>pickle.dump\<close> raises the given exception: \<^verbatim>\<open>TypeError\<close> for most values
  that cannot be pickled, \<^verbatim>\<open>pickle.PicklingError\<close> for others.
\<close>

datatype pvalue = PInt int | PStr string | PRaises exn

type_synonym proc_dict = "(string \<times> pvalue) list"

text \<open>
  What \<^verbatim>\<open>copy.deepcopy(process.as_dict())\<close> does for one tracked process: it
  returns the dictionary, it raises \<^verbatim>\<open>psutil.NoSuchProcess\<close>, or it raises
  another exception (\<^verbatim>\<open>TypeError\<close> from \<^verbatim>\<open>deepcopy\<close>, for one).
\<close>

datatype as_dict_result = ProcessInfo proc_dict | NoSuchProcess | AsDictRaises exn

text \<open>
  What a snapshot file holds once the callback is over: the pickled list, or,
  when \<^verbatim>\<open>pickle.dump\<close> raised after \<^verbatim>\<open>open(..., 'wb')\<close> had created the
  file, no complete snapshot.
\<close>

datatype snapshot_file = Pickled "proc_dict list" | Incomplete

definition del_key :: "string \<Rightarrow> proc_dict \<Rightarrow> proc_dict option" where
  "del_key k d = (if k \<in> fst ` set d then Some (filter (\<lambda>kv. fst kv \<noteq> k) d) else None)"

text \<open>
  The second \<^verbatim>\<open>try\<close> of the loop over \<^verbatim>\<open>self.ps_processes\<close>: a missing key
  at one of the three \<^verbatim>\<open>del\<close> statements raises \<^verbatim>\<open>KeyError\<close> and the process
  is dropped (\<^verbatim>\<open>pass\<close>).
\<close>

definition strip_process :: "proc_dict \<Rightarrow> proc_dict list" where
  "strip_process d =
     (case del_key ''connections'' d of
        None \<Rightarrow> []
      | Some d1 \<Rightarrow>
          (case del_key ''memory_maps'' d1 of
             None \<Rightarrow> []
           | Some d2 \<Rightarrow>
               (case del_key ''environ'' d2 of
                  None \<Rightarrow> []
                | Some d3 \<Rightarrow> [d3])))"

text \<open>
  The loop over \<^verbatim>\<open>self.ps_processes\<close>: \<^verbatim>\<open>psutil.NoSuchProcess\<close> is caught
  (\<^verbatim>\<open>continue\<close>); any other exception of \<^verbatim>\<open>copy.deepcopy(process.as_dict())\<close>
  leaves the loop and the callback.
\<close>

fun collect_processes :: "as_dict_result list \<Rightarrow> proc_dict list \<Rightarrow> exn + proc_dict list" where
  "collect_processes [] processes_dicts_list = Inr processes_dicts_list"
| "collect_processes (ProcessInfo d # rs) processes_dicts_list =
     collect_processes rs (processes_dicts_list @ strip_process d)"
| "collect_processes (NoSuchProcess # rs) processes_dicts_list =
     collect_processes rs processes_dicts_list"
| "collect_processes (AsDictRaises e # rs) processes_dicts_list = Inl e"

text \<open>The exception \<^verbatim>\<open>pickle.dump\<close> raises for a list of dictionaries, if it raises.\<close>

fun dump_error :: "pvalue list \<Rightarrow> exn option" where
  "dump_error [] = None"
| "dump_error (PRaises e # vs) = Some e"
| "dump_error (v # vs) = dump_error vs"

definition pickle_dump :: "proc_dict list \<Rightarrow> exn option" where
  "pickle_dump ds = dump_error (map snd (concat ds))"

section \<open>The supervisor's state\<close>

text \<open>
  The run variables of \<^verbatim>\<open>__init__\<close>, the three buffered tables, and what the
  node has done to the outside: the lines appended to the event log, to the scan
  file and to the particle file, the snapshot files and CSV files written (path and content, in
  order), the goals sent to the navigation action server, and the reason of the first
  \<^verbatim>\<open>rospy.signal_shutdown\<close> (\<^verbatim>\<open>rospy.is_shutdown()\<close> holds once there is one).
  \<^verbatim>\<open>traversal_path_poses\<close> is \<^verbatim>\<open>None\<close> until \<^verbatim>\<open>start_run\<close> assigns the
  deque and is not read before; the empty list stands for it. The last field is
  not of the node: it names the files that cannot be opened for writing.
\<close>

record supervisor =
  run_started :: bool
  ps_snapshot_count :: int
  received_first_scan :: bool
  latest_ground_truth_pose_msg :: "odometry option"
  traversal_path_poses :: "pose list"
  current_goal :: "pose option"
  num_goals :: "int option"
  goal_sent_count :: int
  goal_succeeded_count :: int
  goal_failed_count :: int
  goal_rejected_count :: int
  goal_tolerance :: real
  estimated_poses_df :: "real list list"
  estimated_correction_poses_df :: "real list list"
  ground_truth_poses_df :: "real list list"
  run_events_file :: "string list"
  scans_file :: "string list"
  amcl_particles_file :: "string list"
  ps_snapshot_files :: "(string \<times> snapshot_file) list"
  csv_files :: "(string \<times> real list list) list"
  sent_goals :: "pose list"
  ros_shutdown :: "string option"
  unwritable :: "string list"

text \<open>
  The state \<^verbatim>\<open>__init__\<close> leaves, for a configured goal tolerance, when every file
  can be written.
\<close>

definition init_supervisor :: "real \<Rightarrow> supervisor" where
  "init_supervisor tol =
     \<lparr> run_started = False, ps_snapshot_count = 0, received_first_scan = False,
       latest_ground_truth_pose_msg = None, traversal_path_poses = [],
       current_goal = None, num_goals = None, goal_sent_count = 0,
       goal_succeeded_count = 0, goal_failed_count = 0, goal_rejected_count = 0,
       goal_tolerance = tol, estimated_poses_df = [],
       estimated_correction_poses_df = [], ground_truth_poses_df = [],
       run_events_file = [], scans_file = [], amcl_particles_file = [],
       ps_snapshot_files = [],
       csv_files = [], sent_goals = [], ros_shutdown = None, unwritable = [] \<rparr>"

text \<open>
  \<^verbatim>\<open>write_event\<close>: the line is appended to \<^verbatim>\<open>run_events.csv\<close>; when the file
  cannot be opened the \<^verbatim>\<open>IOError\<close> is caught and logged, and nothing is written.
\<close>

definition write_event :: "string \<Rightarrow> supervisor \<Rightarrow> supervisor" where
  "write_event event s =
     (if ''run_events.csv'' \<in> set (unwritable s) then s
      else s\<lparr>run_events_file := run_events_file s @ [event]\<rparr>)"

text \<open>How a call ends: it returns, or it raises; the state is the one it leaves.\<close>

datatype outcome = Returned supervisor | Raised exn supervisor

definition outcome_state :: "outcome \<Rightarrow> supervisor" where
  "outcome_state r = (case r of Returned s \<Rightarrow> s | Raised e s \<Rightarrow> s)"

definition is_shutdown :: "supervisor \<Rightarrow> bool" where
  "is_shutdown s = (ros_shutdown s \<noteq> None)"

definition signal_shutdown :: "string \<Rightarrow> supervisor \<Rightarrow> supervisor" where
  "signal_shutdown reason s =
     (if is_shutdown s then s else s\<lparr>ros_shutdown := Some reason\<rparr>)"

section \<open>The scan recorder\<close>

text \<open>The line written by \<^verbatim>\<open>scan_callback\<close>, without its newline.\<close>

definition scan_line :: "pylib \<Rightarrow> laser_scan \<Rightarrow> string" where
  "scan_line L laser_scan_msg =
     str_float L (ls_stamp laser_scan_msg) @ '', '' @
     str_float L (ls_angle_min laser_scan_msg) @ '', '' @
     str_float L (ls_angle_max laser_scan_msg) @ '', '' @
     str_float L (ls_angle_increment laser_scan_msg) @ '', '' @
     str_float L (ls_range_min laser_scan_msg) @ '', '' @
     str_float L (ls_range_max laser_scan_msg) @ '', '' @
     join '', '' (map (str_float L) (ls_ranges laser_scan_msg))"

text \<open>\<^verbatim>\<open>scan_callback\<close>; the \<^verbatim>\<open>IOError\<close> of \<^verbatim>\<open>open\<close> is not caught.\<close>

definition scan_callback :: "pylib \<Rightarrow> laser_scan \<Rightarrow> supervisor \<Rightarrow> outcome" where
  "scan_callback L laser_scan_msg s =
     (let s1 = s\<lparr>received_first_scan := True\<rparr>
      in if \<not> run_started s1 then Returned s1
         else if ''scans.csv'' \<in> set (unwritable s1) then Raised IOError s1
         else Returned (s1\<lparr>scans_file := scans_file s1 @ [scan_line L laser_scan_msg]\<rparr>))"

section \<open>The particle recorder\<close>

text \<open>\<^verbatim>\<open>', '.join(map(str, [x, y, theta]))\<close> for one particle.\<close>

definition particle_str :: "pylib \<Rightarrow> pose \<Rightarrow> string" where
  "particle_str L p =
     join '', '' (map (str_float L)
       [pos_x (pose_position p), pos_y (pose_position p), yaw_of L (pose_orientation p)])"

text \<open>The loop \<^verbatim>\<open>for particle_pose in pose_array_msg.poses: poses_str += ...\<close>\<close>

definition poses_str :: "pylib \<Rightarrow> pose list \<Rightarrow> string" where
  "poses_str L ps = foldl (\<lambda>acc p. acc @ particle_str L p) [] ps"

text \<open>The line written by \<^verbatim>\<open>amcl_particles_callback\<close>, without its newline.\<close>

definition amcl_particles_line :: "pylib \<Rightarrow> pose_array \<Rightarrow> string" where
  "amcl_particles_line L msg =
     str_float L (pa_stamp msg) @ '', '' @ pa_frame_id msg @ '', '' @
     str_int (int (length (pa_poses msg))) @ '', '' @ poses_str L (pa_poses msg)"

text \<open>
  \<^verbatim>\<open>amcl_particles_callback\<close>; the \<^verbatim>\<open>IOError\<close> of \<^verbatim>\<open>open\<close> is not caught.
\<close>

definition amcl_particles_callback :: "pylib \<Rightarrow> pose_array \<Rightarrow> supervisor \<Rightarrow> outcome" where
  "amcl_particles_callback L msg s =
     (if \<not> run_started s then Returned s
      else if ''amcl_particles.csv'' \<in> set (unwritable s) then Raised IOError s
      else Returned
        (s\<lparr>amcl_particles_file := amcl_particles_file s @ [amcl_particles_line L msg]\<rparr>))"

text \<open>
  The row as the specification words it: time stamp, frame identifier, particle
  count, then the three fields of every particle, all separated by \<^verbatim>\<open>', '\<close>.
\<close>

definition spec_particles_line :: "pylib \<Rightarrow> pose_array \<Rightarrow> string" where
  "spec_particles_line L msg =
     join '', ''
       ([str_float L (pa_stamp msg), pa_frame_id msg, str_int (int (length (pa_poses msg)))] @
        concat (map (\<lambda>p. map (str_float L)
          [pos_x (pose_position p), pos_y (pose_position p), yaw_of L (pose_orientation p)])
          (pa_poses msg)))"

section \<open>The process snapshotter\<close>

definition ps_snapshot_name :: "int \<Rightarrow> string" where
  "ps_snapshot_name i = ''ps_'' @ format_08d i @ ''.pkl''"

text \<open>
  \<^verbatim>\<open>ps_snapshot_timer_callback\<close>; paths are relative to \<^verbatim>\<open>ps_output_folder\<close>.
  The argument is what \<^verbatim>\<open>copy.deepcopy(process.as_dict())\<close> does for each process
  of the list \<^verbatim>\<open>self.ps_processes\<close>, in order. An exception of the loop leaves the
  callback before anything is written. \<^verbatim>\<open>open(..., 'wb')\<close> raises \<^verbatim>\<open>IOError\<close>
  when the file cannot be written, or creates the file; then \<^verbatim>\<open>pickle.dump\<close>
  fills it or raises. Of the exceptions of \<^verbatim>\<open>open\<close> and \<^verbatim>\<open>pickle.dump\<close> only
  \<^verbatim>\<open>TypeError\<close> is caught: any other leaves the callback before line 419, where
  the counter is incremented.
\<close>

definition ps_snapshot_timer_callback :: "as_dict_result list \<Rightarrow> supervisor \<Rightarrow> outcome" where
  "ps_snapshot_timer_callback results s =
     (let ps_snapshot_file_path = ps_snapshot_name (ps_snapshot_count s) in
      case collect_processes results [] of
        Inl e \<Rightarrow> Raised e s
      | Inr processes_dicts_list \<Rightarrow>
          if ps_snapshot_file_path \<in> set (unwritable s) then Raised IOError s
          else
            (case pickle_dump processes_dicts_list of
               None \<Rightarrow>
                 Returned
                   (s\<lparr>ps_snapshot_files :=
                        ps_snapshot_files s @ [(ps_snapshot_file_path, Pickled processes_dicts_list)],
                      ps_snapshot_count := ps_snapshot_count s + 1\<rparr>)
             | Some TypeError \<Rightarrow>
                 Returned
                   (s\<lparr>ps_snapshot_files :=
                        ps_snapshot_files s @ [(ps_snapshot_file_path, Incomplete)],
                      ps_snapshot_count := ps_snapshot_count s + 1\<rparr>)
             | Some e \<Rightarrow>
                 Raised e
                   (s\<lparr>ps_snapshot_files :=
                        ps_snapshot_files s @ [(ps_snapshot_file_path, Incomplete)]\<rparr>)))"


section \<open>The skeleton graph and the graph library\<close>

text \<open>
  The Voronoi graph handed to \<^verbatim>\<open>start_run\<close> is a networkx \<^verbatim>\<open>Graph\<close>:
  its nodes in insertion order, its undirected edges with their
  \<^verbatim>\<open>voronoi_path_distance\<close>, and the \<^verbatim>\<open>vertex\<close> attribute of every node.
  The library keeps one edge for a pair of nodes, both ends of an edge are nodes of
  the graph, and path distances are not negative.
\<close>

type_synonym node = nat

record graph =
  g_nodes :: "node list"
  g_edges :: "(node \<times> node \<times> real) list"
  g_vertex :: "node \<Rightarrow> position"

definition wf_graph :: "graph \<Rightarrow> bool" where
  "wf_graph g =
     (distinct (g_nodes g) \<and>
      list_all (\<lambda>(a, b, w). a \<in> set (g_nodes g) \<and> b \<in> set (g_nodes g) \<and> 0 \<le> w) (g_edges g))"

text \<open>The adjacency \<^verbatim>\<open>G.adj[v]\<close>: the neighbours of a node with the edge weights.\<close>

definition neighbors :: "graph \<Rightarrow> node \<Rightarrow> (node \<times> real) list" where
  "neighbors g v =
     concat (map (\<lambda>(a, b, w). if a = v then [(b, w)] else if b = v then [(a, w)] else [])
       (g_edges g))"

text \<open>\<^verbatim>\<open>G.remove_nodes_from(ns)\<close>: the nodes go, and the edges at them.\<close>

definition remove_nodes_from :: "node list \<Rightarrow> graph \<Rightarrow> graph" where
  "remove_nodes_from ns g =
     g\<lparr>g_nodes := filter (\<lambda>v. v \<notin> set ns) (g_nodes g),
       g_edges := filter (\<lambda>(a, b, w). a \<notin> set ns \<and> b \<notin> set ns) (g_edges g)\<rparr>"

text \<open>
  \<^verbatim>\<open>nx.node_connected_component(G, n)\<close>: the set of the nodes reachable from
  \<^verbatim>\<open>n\<close>, found by a search from \<^verbatim>\<open>n\<close> and kept as a list without repetition.
\<close>

function plain_bfs :: "graph \<Rightarrow> node list \<Rightarrow> node list \<Rightarrow> node list" where
  "plain_bfs g seen [] = seen"
| "plain_bfs g seen (v # nextlevel) =
     (if v \<in> set seen \<or> v \<notin> set (g_nodes g) then plain_bfs g seen nextlevel
      else plain_bfs g (seen @ [v]) (nextlevel @ map fst (neighbors g v)))"
  by pat_completeness auto
termination
proof (relation "measures [\<lambda>(g, seen, todo). card (set (g_nodes g) - set seen),
                            \<lambda>(g, seen, todo). length todo]")
  show "wf (measures [\<lambda>(g, seen, todo). card (set (g_nodes g) - set seen),
                      \<lambda>(g, seen, todo). length todo])"
    by simp
next
  fix g :: graph and seen :: "node list" and v :: node and nextlevel :: "node list"
  assume "v \<in> set seen \<or> v \<notin> set (g_nodes g)"
  then show "((g, seen, nextlevel), (g, seen, v # nextlevel))
      \<in> measures [\<lambda>(g, seen, todo). card (set (g_nodes g) - set seen),
                   \<lambda>(g, seen, todo). length todo]"
    by simp
next
  fix g :: graph and seen :: "node list" and v :: node and nextlevel :: "node list"
  assume "\<not> (v \<in> set seen \<or> v \<notin> set (g_nodes g))"
  then have "set (g_nodes g) - set (seen @ [v]) \<subset> set (g_nodes g) - set seen"
    by auto
  then have "card (set (g_nodes g) - set (seen @ [v])) < card (set (g_nodes g) - set seen)"
    by (intro psubset_card_mono) simp_all
  then show "((g, seen @ [v], nextlevel @ map fst (neighbors g v)), (g, seen, v # nextlevel))
      \<in> measures [\<lambda>(g, seen, todo). card (set (g_nodes g) - set seen),
                   \<lambda>(g, seen, todo). length todo]"
    by simp
qed

definition node_connected_component :: "graph \<Rightarrow> node \<Rightarrow> node list" where
  "node_connected_component g n = plain_bfs g [] [n]"

text \<open>
  \<^verbatim>\<open>nx.connected_components(G)\<close>: one component for every node of \<^verbatim>\<open>G\<close> that no
  earlier component holds.
\<close>

fun components_from :: "graph \<Rightarrow> node list \<Rightarrow> node list \<Rightarrow> node list list" where
  "components_from g seen [] = []"
| "components_from g seen (v # vs) =
     (if v \<in> set seen then components_from g seen vs
      else node_connected_component g v #
           components_from g (seen @ node_connected_component g v) vs)"

definition connected_components :: "graph \<Rightarrow> node list list" where
  "connected_components g = components_from g [] (g_nodes g)"

subsection \<open>Dijkstra's algorithm from one source\<close>

text \<open>
  The state of the library's search loop: the final distances \<^verbatim>\<open>dist\<close> in the
  order they were fixed, the tentative distances \<^verbatim>\<open>seen\<close> (the latest entry of a node
  first), the heap \<^verbatim>\<open>fringe\<close> of triples (distance, push counter, node), the
  counter, and the keys of the \<^verbatim>\<open>paths\<close> dictionary in insertion order.
\<close>

record dstate =
  d_dist :: "(node \<times> real) list"
  d_seen :: "(node \<times> real) list"
  d_fringe :: "(real \<times> nat \<times> node) list"
  d_count :: nat
  d_paths :: "node list"

text \<open>\<^verbatim>\<open>heappop\<close> takes the least triple; the counter breaks ties of distance.\<close>

definition entry_less :: "real \<times> nat \<times> node \<Rightarrow> real \<times> nat \<times> node \<Rightarrow> bool" where
  "entry_less x y = (fst x < fst y \<or> (fst x = fst y \<and> fst (snd x) < fst (snd y)))"

fun least_entry :: "real \<times> nat \<times> node \<Rightarrow> (real \<times> nat \<times> node) list \<Rightarrow> real \<times> nat \<times> node" where
  "least_entry e [] = e"
| "least_entry e (x # xs) = least_entry (if entry_less x e then x else e) xs"

text \<open>The body of \<^verbatim>\<open>for u, e in G_succ[v].items()\<close>, \<^verbatim>\<open>v\<close> fixed at distance \<^verbatim>\<open>dv\<close>.\<close>

definition relax :: "real \<Rightarrow> node \<times> real \<Rightarrow> dstate \<Rightarrow> dstate" where
  "relax dv uc st =
     (let u = fst uc; vu_dist = dv + snd uc in
      if u \<in> fst ` set (d_dist st) then st
      else if (case map_of (d_seen st) u of None \<Rightarrow> True | Some su \<Rightarrow> vu_dist < su) then
        st\<lparr>d_seen := (u, vu_dist) # d_seen st,
           d_fringe := d_fringe st @ [(vu_dist, d_count st, u)],
           d_count := Suc (d_count st),
           d_paths := (if u \<in> set (d_paths st) then d_paths st else d_paths st @ [u])\<rparr>
      else st)"

text \<open>One round of \<^verbatim>\<open>while fringe\<close>, for a heap that is not empty.\<close>

definition dijkstra_step :: "graph \<Rightarrow> dstate \<Rightarrow> dstate" where
  "dijkstra_step g st =
     (let e = least_entry (hd (d_fringe st)) (tl (d_fringe st));
          d = fst e; v = snd (snd e);
          st1 = st\<lparr>d_fringe := remove1 e (d_fringe st)\<rparr>
      in if v \<in> fst ` set (d_dist st1) \<or> v \<notin> set (g_nodes g) then st1
         else fold (relax d) (neighbors g v) (st1\<lparr>d_dist := d_dist st1 @ [(v, d)]\<rparr>))"

lemma least_entry_mem: "least_entry e xs \<in> set (e # xs)"
  by (induction xs arbitrary: e) auto

lemma least_entry_fringe:
  "xs \<noteq> [] \<Longrightarrow> least_entry (hd xs) (tl xs) \<in> set xs"
  using least_entry_mem[of "hd xs" "tl xs"] by (cases xs) simp_all

lemma relax_dist [simp]: "d_dist (relax dv uc st) = d_dist st"
  by (simp add: relax_def Let_def)

lemma fold_relax_dist [simp]: "d_dist (fold (relax dv) ns st) = d_dist st"
  by (induction ns arbitrary: st) simp_all

text \<open>The loop ends: a round fixes the distance of one more node of the graph, or only shortens the heap.\<close>

definition dijkstra_measure :: "graph \<Rightarrow> dstate \<Rightarrow> nat \<times> nat" where
  "dijkstra_measure g st =
     (card (set (g_nodes g) - fst ` set (d_dist st)), length (d_fringe st))"

lemma dijkstra_step_decreases:
  assumes "d_fringe st \<noteq> []"
  shows "(dijkstra_measure g (dijkstra_step g st), dijkstra_measure g st) \<in> less_than <*lex*> less_than"
proof -
  let ?e = "least_entry (hd (d_fringe st)) (tl (d_fringe st))"
  let ?v = "snd (snd ?e)"
  have mem: "?e \<in> set (d_fringe st)"
    using assms by (rule least_entry_fringe)
  then have len: "length (remove1 ?e (d_fringe st)) < length (d_fringe st)"
    by (simp add: length_remove1) (use assms in \<open>cases "d_fringe st"\<close>, simp_all)
  show ?thesis
  proof (cases "?v \<in> fst ` set (d_dist st) \<or> ?v \<notin> set (g_nodes g)")
    case True
    then show ?thesis
      using len by (simp add: dijkstra_step_def dijkstra_measure_def Let_def)
  next
    case False
    then have "set (g_nodes g) - fst ` set (d_dist st @ [(?v, fst ?e)])
                 \<subset> set (g_nodes g) - fst ` set (d_dist st)"
      by auto
    then have "card (set (g_nodes g) - fst ` set (d_dist st @ [(?v, fst ?e)]))
                 < card (set (g_nodes g) - fst ` set (d_dist st))"
      by (intro psubset_card_mono) simp_all
    then show ?thesis
      using False by (simp add: dijkstra_step_def dijkstra_measure_def Let_def)
  qed
qed

function dijkstra_loop :: "graph \<Rightarrow> dstate \<Rightarrow> dstate" where
  "dijkstra_loop g st = (if d_fringe st = [] then st else dijkstra_loop g (dijkstra_step g st))"
  by pat_completeness auto
termination
proof (relation "inv_image (less_than <*lex*> less_than) (\<lambda>(g, st). dijkstra_measure g st)")
  show "wf (inv_image (less_than <*lex*> less_than) (\<lambda>(g, st). dijkstra_measure g st))"
    by (intro wf_inv_image wf_lex_prod wf_less_than)
next
  fix g :: graph and st :: dstate
  assume "d_fringe st \<noteq> []"
  then show "((g, dijkstra_step g st), (g, st))
     \<in> inv_image (less_than <*lex*> less_than) (\<lambda>(g, st). dijkstra_measure g st)"
    using dijkstra_step_decreases[of st g] by simp
qed

declare dijkstra_loop.simps [simp del]

definition single_source_dijkstra :: "graph \<Rightarrow> node \<Rightarrow> dstate" where
  "single_source_dijkstra g source =
     dijkstra_loop g \<lparr>d_dist = [], d_seen = [(source, 0)], d_fringe = [(0, 0, source)],
                      d_count = 1, d_paths = [source]\<rparr>"

text \<open>
  \<^verbatim>\<open>nx.all_pairs_dijkstra_path\<close> yields, for every node of the graph in order, the
  node and its dictionary of shortest paths, of which \<^verbatim>\<open>start_run\<close> reads the keys
  only; \<^verbatim>\<open>nx.all_pairs_dijkstra_path_length\<close> yields the node and its dictionary of
  distances.
\<close>

definition all_pairs_dijkstra_path :: "graph \<Rightarrow> (node \<times> node list) list" where
  "all_pairs_dijkstra_path g = map (\<lambda>n. (n, d_paths (single_source_dijkstra g n))) (g_nodes g)"

definition all_pairs_dijkstra_path_length :: "graph \<Rightarrow> (node \<times> (node \<times> real) list) list" where
  "all_pairs_dijkstra_path_length g =
     map (\<lambda>n. (n, d_dist (single_source_dijkstra g n))) (g_nodes g)"

section \<open>The planner\<close>

type_synonym cost_table = "(node \<times> (node \<times> real) list) list"

text \<open>\<^verbatim>\<open>minimum_length_costs[i][j]\<close>\<close>

definition lookup_cost :: "(node \<times> (node \<times> real) list) list \<Rightarrow> node \<Rightarrow> node \<Rightarrow> real option" where
  "lookup_cost minimum_length_costs i j =
     (case map_of minimum_length_costs i of None \<Rightarrow> None | Some row \<Rightarrow> map_of row j)"

text \<open>The inner loop \<^verbatim>\<open>for j in paths_dict.keys()\<close> for one \<^verbatim>\<open>i\<close>.\<close>

fun cost_row :: "(node \<times> (node \<times> real) list) list \<Rightarrow> node \<Rightarrow> node list \<Rightarrow> exn + (node \<times> real) list" where
  "cost_row minimum_length_costs i [] = Inr []"
| "cost_row minimum_length_costs i (j # js) =
     (if i \<noteq> j then
        (case lookup_cost minimum_length_costs i j of
           None \<Rightarrow> Inl KeyError
         | Some c \<Rightarrow>
             (case cost_row minimum_length_costs i js of
                Inl e \<Rightarrow> Inl e
              | Inr row \<Rightarrow> Inr ((j, c) # row)))
      else cost_row minimum_length_costs i js)"

text \<open>
  The outer loop \<^verbatim>\<open>for i, paths_dict in minimum_length_paths\<close>; \<^verbatim>\<open>costs\<close> is a
  \<^verbatim>\<open>defaultdict(dict)\<close>, so a row exists once an entry has been stored in it.
\<close>

fun build_costs :: "(node \<times> (node \<times> real) list) list \<Rightarrow> (node \<times> node list) list \<Rightarrow> exn + cost_table" where
  "build_costs minimum_length_costs [] = Inr []"
| "build_costs minimum_length_costs ((i, ks) # rest) =
     (case cost_row minimum_length_costs i ks of
        Inl e \<Rightarrow> Inl e
      | Inr row \<Rightarrow>
          (case build_costs minimum_length_costs rest of
             Inl e \<Rightarrow> Inl e
           | Inr costs \<Rightarrow> Inr (if row = [] then costs else (i, row) # costs)))"

text \<open>\<^verbatim>\<open>costs[current_node].items()\<close>: a missing row of the \<^verbatim>\<open>defaultdict\<close> is empty.\<close>

definition costs_items :: "cost_table \<Rightarrow> node \<Rightarrow> (node \<times> real) list" where
  "costs_items costs n = (case map_of costs n of None \<Rightarrow> [] | Some row \<Rightarrow> row)"

text \<open>\<^verbatim>\<open>np.argmin\<close>: the index of the first least element.\<close>

fun argmin :: "real list \<Rightarrow> nat" where
  "argmin [] = 0"
| "argmin [x] = 0"
| "argmin (x # y # ys) = (let k = argmin (y # ys) in if x \<le> (y # ys) ! k then 0 else Suc k)"

definition pick_next :: "(node \<times> real) list \<Rightarrow> node" where
  "pick_next candidates = map fst candidates ! argmin (map snd candidates)"

lemma argmin_less: "xs \<noteq> [] \<Longrightarrow> argmin xs < length xs"
  by (induction xs rule: argmin.induct) (simp_all add: Let_def)

lemma pick_next_mem: "candidates \<noteq> [] \<Longrightarrow> pick_next candidates \<in> fst ` set candidates"
proof -
  assume "candidates \<noteq> []"
  then have "argmin (map snd candidates) < length (map fst candidates)"
    using argmin_less[of "map snd candidates"] by simp
  then have "map fst candidates ! argmin (map snd candidates) \<in> set (map fst candidates)"
    by (rule nth_mem)
  then show ?thesis by (simp add: pick_next_def)
qed

text \<open>
  The loop \<^verbatim>\<open>while len(nodes_queue)\<close>. The set \<^verbatim>\<open>nodes_queue\<close> is a list without
  repetition. With no candidate, \<^verbatim>\<open>zip(*candidates)\<close> is empty and the unpacking
  raises \<^verbatim>\<open>ValueError\<close>.
\<close>

function greedy_loop :: "cost_table \<Rightarrow> node \<Rightarrow> node list \<Rightarrow> node list \<Rightarrow> exn + node list" where
  "greedy_loop costs current_node nodes_queue traversal_path_indices =
     (if nodes_queue = [] then Inr traversal_path_indices
      else
        (let candidates = filter (\<lambda>node_cost. fst node_cost \<in> set nodes_queue)
                            (costs_items costs current_node)
         in if candidates = [] then Inl ValueError
            else greedy_loop costs (pick_next candidates)
                   (removeAll (pick_next candidates) nodes_queue)
                   (traversal_path_indices @ [pick_next candidates])))"
  by pat_completeness auto
termination
proof (relation "measure (\<lambda>(costs, current_node, nodes_queue, path). length nodes_queue)")
  show "wf (measure (\<lambda>(costs, current_node, nodes_queue, path). length nodes_queue))"
    by simp
next
  fix costs :: cost_table and current_node :: node
    and nodes_queue traversal_path_indices :: "node list" and candidates :: "(node \<times> real) list"
  assume c: "candidates = filter (\<lambda>node_cost. fst node_cost \<in> set nodes_queue)
                            (costs_items costs current_node)"
    and ne: "candidates \<noteq> []"
  have "pick_next candidates \<in> fst ` set candidates"
    using ne by (rule pick_next_mem)
  then have "pick_next candidates \<in> set nodes_queue"
    unfolding c by auto
  then have "length (removeAll (pick_next candidates) nodes_queue) < length nodes_queue"
    by (rule length_removeAll_less)
  then show "((costs, pick_next candidates, removeAll (pick_next candidates) nodes_queue,
               traversal_path_indices @ [pick_next candidates]),
              (costs, current_node, nodes_queue, traversal_path_indices))
      \<in> measure (\<lambda>(costs, current_node, nodes_queue, path). length nodes_queue)"
    by simp
qed

declare greedy_loop.simps [simp del]

section \<open>The planning phases of the run\<close>

text \<open>
  \<^verbatim>\<open>random.choice(seq)\<close> takes the element at a random index; \<^verbatim>\<open>r\<close> is the number
  the generator draws.
\<close>

definition random_choice :: "nat \<Rightarrow> 'a list \<Rightarrow> 'a" where
  "random_choice r xs = xs ! (r mod length xs)"

text \<open>
  The local variables \<^verbatim>\<open>voronoi_graph\<close> and \<^verbatim>\<open>costs\<close> of \<^verbatim>\<open>start_run\<close>, and
  the parts of its planning in the order of the source.
\<close>

record planning =
  pl_graph :: graph
  pl_costs :: cost_table

text \<open>Lines 166 to 173: the all-pairs searches and the table \<^verbatim>\<open>costs\<close>.\<close>

definition compute_costs :: "graph \<Rightarrow> exn + planning" where
  "compute_costs voronoi_graph =
     (case build_costs (all_pairs_dijkstra_path_length voronoi_graph)
             (all_pairs_dijkstra_path voronoi_graph) of
        Inl e \<Rightarrow> Inl e
      | Inr costs \<Rightarrow> Inr \<lparr>pl_graph = voronoi_graph, pl_costs = costs\<rparr>)"

text \<open>Lines 176 to 179: the components with fewer than two nodes are removed.\<close>

definition remove_small_components :: "planning \<Rightarrow> planning" where
  "remove_small_components p =
     (let too_small_voronoi_graph_components =
            filter (\<lambda>component. length component < 2) (connected_components (pl_graph p))
      in p\<lparr>pl_graph := fold remove_nodes_from too_small_voronoi_graph_components (pl_graph p)\<rparr>)"

text \<open>Lines 186 to 195: the greedy path from a random node.\<close>

definition greedy_traversal :: "nat \<Rightarrow> planning \<Rightarrow> exn + node list" where
  "greedy_traversal r p =
     (let current_node = random_choice r (g_nodes (pl_graph p));
          nodes_queue = node_connected_component (pl_graph p) current_node
      in greedy_loop (pl_costs p) current_node nodes_queue [])"

text \<open>
  Lines 198 to 204: a pose for every node of the path, at the node's \<^verbatim>\<open>vertex\<close>, with
  the orientation drawn for it.
\<close>

definition waypoints :: "graph \<Rightarrow> (nat \<Rightarrow> quaternion) \<Rightarrow> node list \<Rightarrow> pose list" where
  "waypoints g orient path =
     map (\<lambda>(k, node_index). \<lparr>pose_position = g_vertex g node_index, pose_orientation = orient k\<rparr>)
       (enumerate 0 path)"

section \<open>Callbacks\<close>

text \<open>
  \<^verbatim>\<open>write_estimated_pose_timer_callback\<close>. The argument is what
  \<^verbatim>\<open>lookup_transform\<close> does: it returns the transform or raises; the bare
  \<^verbatim>\<open>except\<close> catches whatever is raised.
\<close>

definition write_estimated_pose_timer_callback ::
    "pylib \<Rightarrow> exn + transform_stamped \<Rightarrow> supervisor \<Rightarrow> supervisor" where
  "write_estimated_pose_timer_callback L lookup_transform s =
     (if \<not> run_started s then s
      else
        (case lookup_transform of
           Inl e \<Rightarrow> s
         | Inr transform_msg \<Rightarrow>
             s\<lparr>estimated_poses_df := estimated_poses_df s @
                [[tf_stamp transform_msg, tf_translation_x transform_msg,
                  tf_translation_y transform_msg,
                  yaw_of L (tf_rotation transform_msg)]]\<rparr>))"

text \<open>
  \<^verbatim>\<open>estimated_pose_correction_callback\<close>. \<^verbatim>\<open>reshape(6, 6)\<close> raises
  \<^verbatim>\<open>ValueError\<close> on an array that has not 36 elements; the element at row \<^verbatim>\<open>i\<close>
  and column \<^verbatim>\<open>j\<close> of the matrix is element \<^verbatim>\<open>6 * i + j\<close> of the array.
\<close>

definition estimated_pose_correction_callback ::
    "pylib \<Rightarrow> pose_with_covariance \<Rightarrow> supervisor \<Rightarrow> outcome" where
  "estimated_pose_correction_callback L pose_with_covariance_msg s =
     (if \<not> run_started s then Returned s
      else if length (pc_covariance pose_with_covariance_msg) \<noteq> 36 then Raised ValueError s
      else Returned
        (s\<lparr>estimated_correction_poses_df := estimated_correction_poses_df s @
            [[pc_stamp pose_with_covariance_msg,
              pos_x (pose_position (pc_pose pose_with_covariance_msg)),
              pos_y (pose_position (pc_pose pose_with_covariance_msg)),
              yaw_of L (pose_orientation (pc_pose pose_with_covariance_msg)),
              pc_covariance pose_with_covariance_msg ! 0,
              pc_covariance pose_with_covariance_msg ! 1,
              pc_covariance pose_with_covariance_msg ! 7,
              pc_covariance pose_with_covariance_msg ! 35]]\<rparr>))"

definition ground_truth_pose_callback :: "pylib \<Rightarrow> odometry \<Rightarrow> supervisor \<Rightarrow> supervisor" where
  "ground_truth_pose_callback L odometry_msg s =
     (let s1 = s\<lparr>latest_ground_truth_pose_msg := Some odometry_msg\<rparr>
      in if \<not> run_started s1 then s1
         else s1\<lparr>ground_truth_poses_df := ground_truth_poses_df s1 @
                [[od_stamp odometry_msg,
                  pos_x (pose_position (od_pose odometry_msg)),
                  pos_y (pose_position (od_pose odometry_msg)),
                  yaw_of L (pose_orientation (od_pose odometry_msg)),
                  od_linear_x odometry_msg, od_linear_y odometry_msg,
                  od_angular_z odometry_msg]]\<rparr>)"

definition run_timeout_callback :: "supervisor \<Rightarrow> supervisor" where
  "run_timeout_callback s =
     signal_shutdown ''run_timeout''
       (write_event ''supervisor_finished'' (write_event ''run_timeout'' s))"

definition ros_shutdown_callback :: "supervisor \<Rightarrow> supervisor" where
  "ros_shutdown_callback s = write_event ''supervisor_finished'' (write_event ''ros_shutdown'' s)"

text \<open>
  \<^verbatim>\<open>DataFrame.to_csv\<close>: the table goes to the file, or \<^verbatim>\<open>IOError\<close> is raised
  when the file cannot be written.
\<close>

definition to_csv :: "string \<Rightarrow> real list list \<Rightarrow> supervisor \<Rightarrow> outcome" where
  "to_csv path df s =
     (if path \<in> set (unwritable s) then Raised IOError s
      else Returned (s\<lparr>csv_files := csv_files s @ [(path, df)]\<rparr>))"

text \<open>
  \<^verbatim>\<open>end_run\<close>: the three tables go to their files, in this order; an exception of
  \<^verbatim>\<open>to_csv\<close> is not caught.
\<close>

definition end_run :: "supervisor \<Rightarrow> outcome" where
  "end_run s =
     (case to_csv ''estimated_poses.csv'' (estimated_poses_df s) s of
        Raised e s1 \<Rightarrow> Raised e s1
      | Returned s1 \<Rightarrow>
          (case to_csv ''estimated_correction_poses.csv'' (estimated_correction_poses_df s1) s1 of
             Raised e s2 \<Rightarrow> Raised e s2
           | Returned s2 \<Rightarrow> to_csv ''ground_truth_poses.csv'' (ground_truth_poses_df s2) s2))"

text \<open>
  What runs beside the main thread: a message or a timer of the node, or the
  shutdown of the node asked from outside (\<^verbatim>\<open>rospy\<close>'s own signal handler).
  An exception that leaves a callback ends that callback in its own thread; the state
  it leaves is the one the main thread goes on with.
\<close>

datatype callback =
    Scan laser_scan
  | AmclParticles pose_array
  | EstimatedPoseCorrection pose_with_covariance
  | GroundTruthPose odometry
  | WriteEstimatedPoseTimer "exn + transform_stamped"
  | PsSnapshotTimer "as_dict_result list"
  | RunTimeout
  | NodeShutdown string

fun run_callback :: "pylib \<Rightarrow> callback \<Rightarrow> supervisor \<Rightarrow> supervisor" where
  "run_callback L (Scan msg) s = outcome_state (scan_callback L msg s)"
| "run_callback L (AmclParticles msg) s = outcome_state (amcl_particles_callback L msg s)"
| "run_callback L (EstimatedPoseCorrection msg) s =
     outcome_state (estimated_pose_correction_callback L msg s)"
| "run_callback L (GroundTruthPose msg) s = ground_truth_pose_callback L msg s"
| "run_callback L (WriteEstimatedPoseTimer lookup_transform) s =
     write_estimated_pose_timer_callback L lookup_transform s"
| "run_callback L (PsSnapshotTimer results) s =
     outcome_state (ps_snapshot_timer_callback results s)"
| "run_callback L RunTimeout s = run_timeout_callback s"
| "run_callback L (NodeShutdown reason) s = signal_shutdown reason s"

definition run_callbacks :: "pylib \<Rightarrow> callback list \<Rightarrow> supervisor \<Rightarrow> supervisor" where
  "run_callbacks L cbs s = fold (run_callback L) cbs s"

section \<open>The goal dispatcher\<close>

datatype goal_status =
    PENDING | ACTIVE | PREEMPTED | SUCCEEDED | ABORTED | REJECTED
  | PREEMPTING | RECALLING | RECALLED | LOST

text \<open>
  What the outside does during one round of the loop \<^verbatim>\<open>while not rospy.is_shutdown()\<close>:
  the callbacks served before the test of the loop and while the result is awaited,
  what \<^verbatim>\<open>wait_for_server\<close> and \<^verbatim>\<open>wait_for_result\<close> return (or the exception that
  interrupts them), the state of the goal, and the exception that interrupts
  \<^verbatim>\<open>rospy.sleep\<close>, if one does.
\<close>

record attempt =
  callbacks_before :: "callback list"
  wait_for_server :: "exn + bool"
  callbacks_waiting :: "callback list"
  wait_for_result :: "exn + bool"
  get_state :: goal_status
  sleep_interrupt :: "exn option"

text \<open>A round ends the loop, or the loop goes on.\<close>

datatype iteration = Next supervisor | Stop outcome

text \<open>
  Lines 234 to 241: the goal is popped from the front of the tour, kept as the current
  goal and sent, and the event is written.
\<close>

definition pop_and_send :: "pose \<Rightarrow> pose list \<Rightarrow> supervisor \<Rightarrow> supervisor" where
  "pop_and_send goal rest s =
     (let s1 = s\<lparr>traversal_path_poses := rest, current_goal := Some goal\<rparr>;
          s2 = s1\<lparr>sent_goals := sent_goals s1 @ [goal]\<rparr>
      in write_event ''target_pose_set'' s2)"

text \<open>Lines 234 to 242: then the goal is counted.\<close>

definition dispatch_goal :: "pose \<Rightarrow> pose list \<Rightarrow> supervisor \<Rightarrow> supervisor" where
  "dispatch_goal goal rest s =
     (let s3 = pop_and_send goal rest s
      in s3\<lparr>goal_sent_count := goal_sent_count s3 + 1\<rparr>)"

text \<open>
  Lines 249 to 263. Reading \<^verbatim>\<open>.pose\<close> of \<^verbatim>\<open>latest_ground_truth_pose_msg\<close> while it
  is \<^verbatim>\<open>None\<close> raises \<^verbatim>\<open>AttributeError\<close>.
\<close>

definition classify_result :: "goal_status \<Rightarrow> pose \<Rightarrow> supervisor \<Rightarrow> outcome" where
  "classify_result status goal s =
     (if status = SUCCEEDED then
        (case latest_ground_truth_pose_msg s of
           None \<Rightarrow> Raised AttributeError s
         | Some msg \<Rightarrow>
             (let goal_position = pose_position goal;
                  current_position = pose_position (od_pose msg);
                  distance_from_goal =
                    sqrt ((pos_x goal_position - pos_x current_position)\<^sup>2 +
                          (pos_y goal_position - pos_y current_position)\<^sup>2)
              in if distance_from_goal < goal_tolerance s then
                   Returned ((write_event ''target_pose_reached'' s)
                     \<lparr>goal_succeeded_count := goal_succeeded_count s + 1\<rparr>)
                 else
                   Returned ((write_event ''target_pose_not_reached'' s)
                     \<lparr>goal_failed_count := goal_failed_count s + 1\<rparr>)))
      else
        Returned ((write_event ''target_pose_not_reached'' s)
          \<lparr>goal_failed_count := goal_failed_count s + 1\<rparr>))"

text \<open>
  Lines 265 to 273, after a classification that leaves the state \<^verbatim>\<open>s2\<close>: the
  current goal is cleared; with an empty tour the run is completed, otherwise the
  loop goes on after \<^verbatim>\<open>rospy.sleep\<close>.
\<close>

definition after_classification :: "attempt \<Rightarrow> supervisor \<Rightarrow> iteration" where
  "after_classification a s2 =
     (let s3 = s2\<lparr>current_goal := None\<rparr> in
      if traversal_path_poses s3 = [] then
        Stop (Returned (signal_shutdown ''run_completed'' (write_event ''run_completed'' s3)))
      else
        (case sleep_interrupt a of
           Some e \<Rightarrow> Stop (Raised e s3)
         | None \<Rightarrow> Next s3))"

text \<open>Lines 244 to 273, for the goal just sent.\<close>

definition await_result :: "pylib \<Rightarrow> attempt \<Rightarrow> pose \<Rightarrow> supervisor \<Rightarrow> iteration" where
  "await_result L a goal s =
     (let s1 = run_callbacks L (callbacks_waiting a) s in
      case wait_for_result a of
        Inl e \<Rightarrow> Stop (Raised e s1)
      | Inr False \<Rightarrow>
          Stop (Raised (RunFailException ''waypoint_timeout'')
                 (write_event ''supervisor_finished'' (write_event ''waypoint_timeout'' s1)))
      | Inr True \<Rightarrow>
          (case classify_result (get_state a) goal s1 of
             Raised e s2 \<Rightarrow> Stop (Raised e s2)
           | Returned s2 \<Rightarrow> after_classification a s2))"

text \<open>One round of the loop, lines 223 to 273.\<close>

definition dispatch_iteration :: "pylib \<Rightarrow> attempt \<Rightarrow> supervisor \<Rightarrow> iteration" where
  "dispatch_iteration L a s =
     (let s1 = run_callbacks L (callbacks_before a) s in
      if is_shutdown s1 then Stop (Returned s1)
      else
        (case wait_for_server a of
           Inl e \<Rightarrow> Stop (Raised e s1)
         | Inr False \<Rightarrow>
             Stop (Raised (RunFailException ''navigate_to_pose action server not available'')
                    (write_event ''failed_to_communicate_with_navigation_node'' s1))
         | Inr True \<Rightarrow>
             (case traversal_path_poses s1 of
                [] \<Rightarrow>
                  Stop (Raised
                    (RunFailException
                       ''insufficient number of poses in traversal path, can not send goal'')
                    (write_event ''insufficient_number_of_poses_in_traversal_path'' s1))
              | goal # rest \<Rightarrow> await_result L a goal (dispatch_goal goal rest s1))))"

lemma ps_snapshot_timer_callback_fields:
  "\<exists>files n. outcome_state (ps_snapshot_timer_callback results s) =
     s\<lparr>ps_snapshot_files := files, ps_snapshot_count := n\<rparr>"
proof -
  have a: "s = s\<lparr>ps_snapshot_files := ps_snapshot_files s, ps_snapshot_count := ps_snapshot_count s\<rparr>"
    by simp
  have b: "s\<lparr>ps_snapshot_files := f\<rparr> = s\<lparr>ps_snapshot_files := f, ps_snapshot_count := ps_snapshot_count s\<rparr>"
    for f by simp
  show ?thesis
    unfolding ps_snapshot_timer_callback_def Let_def outcome_state_def
    by (auto split: sum.splits option.splits exn.splits intro: a b)
qed

lemma amcl_particles_callback_fields:
  "\<exists>ls. outcome_state (amcl_particles_callback L msg s) = s\<lparr>amcl_particles_file := ls\<rparr>"
proof -
  have a: "s = s\<lparr>amcl_particles_file := amcl_particles_file s\<rparr>" by simp
  show ?thesis
    unfolding amcl_particles_callback_def outcome_state_def
    by (auto intro: a)
qed

lemma run_callback_path [simp]:
  "traversal_path_poses (run_callback L cb s) = traversal_path_poses s"
proof (cases cb)
  case (AmclParticles msg)
  obtain ls where "outcome_state (amcl_particles_callback L msg s) = s\<lparr>amcl_particles_file := ls\<rparr>"
    using amcl_particles_callback_fields by blast
  with AmclParticles show ?thesis by simp
next
  case (PsSnapshotTimer results)
  obtain files n where "outcome_state (ps_snapshot_timer_callback results s) =
     s\<lparr>ps_snapshot_files := files, ps_snapshot_count := n\<rparr>"
    using ps_snapshot_timer_callback_fields by blast
  with PsSnapshotTimer show ?thesis by simp
qed (simp_all add: ground_truth_pose_callback_def run_timeout_callback_def signal_shutdown_def
      write_event_def scan_callback_def estimated_pose_correction_callback_def
      write_estimated_pose_timer_callback_def outcome_state_def Let_def split: sum.splits)

lemma run_callbacks_path [simp]:
  "traversal_path_poses (run_callbacks L cbs s) = traversal_path_poses s"
  unfolding run_callbacks_def by (induction cbs arbitrary: s) simp_all

lemma classify_result_path:
  "classify_result status goal s = Returned s' \<Longrightarrow> traversal_path_poses s' = traversal_path_poses s"
  by (auto simp: classify_result_def write_event_def Let_def split: if_splits option.splits)

lemma await_result_path:
  "await_result L a goal s = Next s' \<Longrightarrow> traversal_path_poses s' = traversal_path_poses s"
  by (auto simp: await_result_def after_classification_def Let_def dest!: classify_result_path
      split: sum.splits bool.splits outcome.splits if_splits option.splits)

lemma dispatch_iteration_shrinks:
  "dispatch_iteration L a s = Next s' \<Longrightarrow>
     length (traversal_path_poses s') < length (traversal_path_poses s)"
  by (auto simp: dispatch_iteration_def Let_def dispatch_goal_def pop_and_send_def write_event_def
      dest!: await_result_path
      split: sum.splits bool.splits list.splits if_splits)

text \<open>The loop; \<^verbatim>\<open>k\<close> counts its rounds.\<close>

function dispatch_loop :: "pylib \<Rightarrow> (nat \<Rightarrow> attempt) \<Rightarrow> nat \<Rightarrow> supervisor \<Rightarrow> outcome" where
  "dispatch_loop L env k s =
     (case dispatch_iteration L (env k) s of
        Stop r \<Rightarrow> r
      | Next s' \<Rightarrow> dispatch_loop L env (Suc k) s')"
  by pat_completeness auto
termination
  by (relation "measure (\<lambda>(L, env, k, s). length (traversal_path_poses s))")
    (simp_all add: dispatch_iteration_shrinks)

declare dispatch_loop.simps [simp del]

section \<open>The run\<close>

text \<open>
  What a run meets: the callbacks served during each \<^verbatim>\<open>time.sleep\<close> of the wait for
  the first scan (those served while \<^verbatim>\<open>start_run\<close> plans count with the last
  sleep), the graph of the map, the random index of the start node, the random
  orientation of each waypoint, and the rounds of the dispatch loop.
\<close>

record run_env =
  env_startup :: "callback list list"
  env_graph :: graph
  env_random :: nat
  env_orientation :: "nat \<Rightarrow> quaternion"
  env_attempts :: "nat \<Rightarrow> attempt"

text \<open>Lines 198 and 217 to 220.\<close>

definition begin_dispatch :: "pose list \<Rightarrow> supervisor \<Rightarrow> supervisor" where
  "begin_dispatch poses s =
     (let s1 = s\<lparr>traversal_path_poses := poses\<rparr>;
          s2 = s1\<lparr>num_goals := Some (int (length (traversal_path_poses s1)))\<rparr>;
          s3 = write_event ''run_start'' s2
      in s3\<lparr>run_started := True\<rparr>)"

text \<open>Lines 165 to 220 of \<^verbatim>\<open>start_run\<close>.\<close>

definition plan_run :: "run_env \<Rightarrow> supervisor \<Rightarrow> outcome" where
  "plan_run env s =
     (case compute_costs (env_graph env) of
        Inl e \<Rightarrow> Raised e s
      | Inr p0 \<Rightarrow>
          (let p = remove_small_components p0 in
           if length (g_nodes (pl_graph p)) < 2 then
             Raised
               (RunFailException
                  ''insufficient number of nodes in deleaved_reduced_voronoi_graph, can not generate traversal path'')
               (write_event ''insufficient_number_of_nodes_in_deleaved_reduced_voronoi_graph'' s)
           else
             (case greedy_traversal (env_random env) p of
                Inl e \<Rightarrow> Raised e s
              | Inr traversal_path_indices \<Rightarrow>
                  Returned (begin_dispatch
                    (waypoints (pl_graph p) (env_orientation env) traversal_path_indices) s))))"

text \<open>
  Lines 156 to 163: the loop \<^verbatim>\<open>while not self.received_first_scan and not
  rospy.is_shutdown()\<close>. When no callback is left to come and the loop has not ended,
  it never ends: \<^verbatim>\<open>None\<close>.
\<close>

fun wait_for_first_scan :: "pylib \<Rightarrow> callback list list \<Rightarrow> supervisor \<Rightarrow> supervisor option" where
  "wait_for_first_scan L [] s =
     (if \<not> received_first_scan s \<and> \<not> is_shutdown s then None else Some s)"
| "wait_for_first_scan L (cbs # sleeps) s =
     (if \<not> received_first_scan s \<and> \<not> is_shutdown s
      then wait_for_first_scan L sleeps (run_callbacks L cbs s)
      else Some s)"

text \<open>\<^verbatim>\<open>start_run\<close>; \<^verbatim>\<open>None\<close> when it does not return.\<close>

definition start_run :: "pylib \<Rightarrow> run_env \<Rightarrow> supervisor \<Rightarrow> outcome option" where
  "start_run L env s =
     (case wait_for_first_scan L (env_startup env) s of
        None \<Rightarrow> None
      | Some s0 \<Rightarrow>
          Some (case plan_run env s0 of
                  Raised e s1 \<Rightarrow> Raised e s1
                | Returned s1 \<Rightarrow> dispatch_loop L (env_attempts env) 0 s1))"

text \<open>
  \<^verbatim>\<open>rospy.spin()\<close> returns at once when the node is shut down. Otherwise it blocks;
  \<^verbatim>\<open>None\<close> stands for that.
\<close>

definition spin :: "supervisor \<Rightarrow> outcome option" where
  "spin s = (if is_shutdown s then Some (Returned s) else None)"

text \<open>The body of the \<^verbatim>\<open>try\<close> of \<^verbatim>\<open>main\<close>, once the node is constructed.\<close>

definition main_try :: "pylib \<Rightarrow> run_env \<Rightarrow> supervisor \<Rightarrow> outcome option" where
  "main_try L env node =
     (case start_run L env node of
        None \<Rightarrow> None
      | Some (Raised e s) \<Rightarrow> Some (Raised e s)
      | Some (Returned s) \<Rightarrow> spin s)"

text \<open>
  The \<^verbatim>\<open>except\<close> clauses: the exception that goes on after them, if one does, and
  the state. \<^verbatim>\<open>SystemExit\<close> is no \<^verbatim>\<open>Exception\<close> and is not caught.
\<close>

definition main_except :: "outcome \<Rightarrow> exn option \<times> supervisor" where
  "main_except r =
     (case r of
        Returned s \<Rightarrow> (None, s)
      | Raised e s \<Rightarrow>
          (case e of
             KeyboardInterrupt \<Rightarrow> (None, ros_shutdown_callback s)
           | SystemExit \<Rightarrow> (Some SystemExit, s)
           | _ \<Rightarrow> (None, s)))"

text \<open>
  The \<^verbatim>\<open>finally\<close> clause for a node that is not \<^verbatim>\<open>None\<close>: an exception of
  \<^verbatim>\<open>end_run\<close> leaves the clause, and \<^verbatim>\<open>main\<close>, at once.
\<close>

definition main_finally :: "supervisor \<Rightarrow> outcome" where
  "main_finally node =
     (case end_run node of
        Raised e s \<Rightarrow> Raised e s
      | Returned s \<Rightarrow>
          Returned (if \<not> is_shutdown s then signal_shutdown ''run_terminated'' s else s))"

text \<open>
  \<^verbatim>\<open>main\<close>. The argument \<^verbatim>\<open>init\<close> is what the constructor does: it raises, and
  \<^verbatim>\<open>node\<close> stays \<^verbatim>\<open>None\<close>, or it returns the node. With \<^verbatim>\<open>node\<close> at
  \<^verbatim>\<open>None\<close> the handler of \<^verbatim>\<open>KeyboardInterrupt\<close> raises \<^verbatim>\<open>AttributeError\<close>, and
  \<^verbatim>\<open>end_run\<close> is not called. The result is the exception that leaves \<^verbatim>\<open>main\<close>,
  if one does, and the node; \<^verbatim>\<open>None\<close> when \<^verbatim>\<open>main\<close> does not return.
\<close>

definition main :: "pylib \<Rightarrow> run_env \<Rightarrow> exn + supervisor \<Rightarrow> (exn option \<times> supervisor option) option" where
  "main L env init =
     (case init of
        Inl e \<Rightarrow>
          Some ((case e of
                   KeyboardInterrupt \<Rightarrow> Some AttributeError
                 | SystemExit \<Rightarrow> Some SystemExit
                 | _ \<Rightarrow> None), None)
      | Inr node \<Rightarrow>
          (case main_try L env node of
             None \<Rightarrow> None
           | Some r \<Rightarrow>
               (case main_finally (snd (main_except r)) of
                  Raised e s \<Rightarrow> Some (Some e, Some s)
                | Returned s \<Rightarrow> Some (fst (main_except r), Some s))))"


section \<open>Snapshot files and their numbers\<close>

















section \<open>Reachability in the graph\<close>

definition edge_rel :: "graph \<Rightarrow> (node \<times> node) set" where
  "edge_rel g = {(a, b). \<exists>w. (a, b, w) \<in> set (g_edges g) \<or> (b, a, w) \<in> set (g_edges g)}"

definition component_of :: "graph \<Rightarrow> node \<Rightarrow> node set" where
  "component_of g v = (edge_rel g)\<^sup>* `` {v}"

lemma edge_rel_sym: "sym (edge_rel g)"
  by (auto simp: edge_rel_def sym_def)

lemma edge_neighbors:
  "fst ` set (case e of (a, b, w) \<Rightarrow> if a = v then [(b, w)] else if b = v then [(a, w)] else [])
     = {u. \<exists>w. e = (v, u, w) \<or> e = (u, v, w)}"
  by (cases e) auto

lemma neighbors_set:
  "u \<in> fst ` set (neighbors g v) \<longleftrightarrow>
     (\<exists>w. (v, u, w) \<in> set (g_edges g) \<or> (u, v, w) \<in> set (g_edges g))"
proof -
  have "fst ` set (neighbors g v) = (\<Union>e\<in>set (g_edges g). {u. \<exists>w. e = (v, u, w) \<or> e = (u, v, w)})"
    unfolding neighbors_def set_concat set_map image_UN image_image edge_neighbors ..
  then show ?thesis by auto
qed

lemma neighbors_edge_rel: "fst ` set (neighbors g v) = edge_rel g `` {v}"
proof (rule set_eqI)
  fix u
  show "u \<in> fst ` set (neighbors g v) \<longleftrightarrow> u \<in> edge_rel g `` {v}"
    unfolding neighbors_set by (simp add: edge_rel_def)
qed

lemma edge_rel_nodes:
  assumes "wf_graph g" and "(a, b) \<in> edge_rel g"
  shows "a \<in> set (g_nodes g) \<and> b \<in> set (g_nodes g)"
  using assms by (auto simp: wf_graph_def edge_rel_def list_all_iff)

lemma reach_sym: "(a, b) \<in> (edge_rel g)\<^sup>* \<Longrightarrow> (b, a) \<in> (edge_rel g)\<^sup>*"
  using edge_rel_sym[of g] by (metis sym_rtrancl symD)

lemma component_of_self: "v \<in> component_of g v"
  by (simp add: component_of_def)

lemma component_of_eq:
  assumes "u \<in> component_of g v"
  shows "component_of g u = component_of g v"
proof -
  have vu: "(v, u) \<in> (edge_rel g)\<^sup>*" using assms by (simp add: component_of_def)
  then have uv: "(u, v) \<in> (edge_rel g)\<^sup>*" by (rule reach_sym)
  show ?thesis
  proof (rule set_eqI)
    fix x
    have "(u, x) \<in> (edge_rel g)\<^sup>* \<longleftrightarrow> (v, x) \<in> (edge_rel g)\<^sup>*"
      using vu uv by (blast intro: rtrancl_trans)
    then show "x \<in> component_of g u \<longleftrightarrow> x \<in> component_of g v"
      by (simp add: component_of_def)
  qed
qed

lemma component_of_nodes:
  assumes "wf_graph g" and "v \<in> set (g_nodes g)"
  shows "component_of g v \<subseteq> set (g_nodes g)"
proof
  fix u assume "u \<in> component_of g v"
  then have "(v, u) \<in> (edge_rel g)\<^sup>*" by (simp add: component_of_def)
  then show "u \<in> set (g_nodes g)"
    using assms by (induction rule: rtrancl_induct) (auto dest: edge_rel_nodes)
qed

lemma closed_reach:
  assumes "r `` X \<subseteq> X" and "x \<in> X" and "(x, y) \<in> r\<^sup>*"
  shows "y \<in> X"
  using assms(3,1,2) by (induction rule: rtrancl_induct) auto

subsection \<open>The search\<close>

lemma plain_bfs_seen: "set seen \<subseteq> set (plain_bfs g seen todo)"
  by (induction g seen todo rule: plain_bfs.induct) auto

lemma plain_bfs_todo: "set todo \<inter> set (g_nodes g) \<subseteq> set (plain_bfs g seen todo)"
proof (induction g seen todo rule: plain_bfs.induct)
  case (1 g seen)
  show ?case by simp
next
  case (2 g seen v nextlevel)
  show ?case
  proof (cases "v \<in> set seen \<or> v \<notin> set (g_nodes g)")
    case True
    then show ?thesis
      using 2 plain_bfs_seen[of seen g nextlevel] by auto
  next
    case False
    then show ?thesis
      using 2 plain_bfs_seen[of "seen @ [v]" g "nextlevel @ map fst (neighbors g v)"] by auto
  qed
qed

lemma plain_bfs_distinct: "distinct seen \<Longrightarrow> distinct (plain_bfs g seen todo)"
  by (induction g seen todo rule: plain_bfs.induct) auto

lemma plain_bfs_closed:
  assumes "wf_graph g" and "edge_rel g `` set seen \<subseteq> set seen \<union> set todo"
  shows "edge_rel g `` set (plain_bfs g seen todo) \<subseteq> set (plain_bfs g seen todo)"
  using assms
proof (induction g seen todo rule: plain_bfs.induct)
  case (1 g seen)
  then show ?case by simp
next
  case (2 g seen v nextlevel)
  show ?case
  proof (cases "v \<in> set seen \<or> v \<notin> set (g_nodes g)")
    case True
    have "edge_rel g `` set seen \<subseteq> set seen \<union> set nextlevel"
    proof
      fix u assume u: "u \<in> edge_rel g `` set seen"
      then have "u \<in> set (g_nodes g)" using "2.prems"(1) by (auto dest: edge_rel_nodes)
      with u True "2.prems"(2) show "u \<in> set seen \<union> set nextlevel" by auto
    qed
    with 2 True show ?thesis by simp
  next
    case False
    have "edge_rel g `` set (seen @ [v]) \<subseteq> set (seen @ [v]) \<union> set (nextlevel @ map fst (neighbors g v))"
      using "2.prems"(2) neighbors_edge_rel[of g v] by auto
    with 2 False show ?thesis by simp
  qed
qed

lemma plain_bfs_sound:
  "set (plain_bfs g seen todo) \<subseteq> set seen \<union> (edge_rel g)\<^sup>* `` set todo"
proof (induction g seen todo rule: plain_bfs.induct)
  case (1 g seen)
  show ?case by simp
next
  case (2 g seen v nextlevel)
  show ?case
  proof (cases "v \<in> set seen \<or> v \<notin> set (g_nodes g)")
    case True
    then have "set (plain_bfs g seen nextlevel) \<subseteq> set seen \<union> (edge_rel g)\<^sup>* `` set nextlevel"
      using 2 by simp
    moreover have "(edge_rel g)\<^sup>* `` set nextlevel \<subseteq> (edge_rel g)\<^sup>* `` set (v # nextlevel)"
      by (rule Image_mono) auto
    ultimately show ?thesis using True by auto
  next
    case False
    let ?N = "set (map fst (neighbors g v))"
    let ?res = "set (plain_bfs g (seen @ [v]) (nextlevel @ map fst (neighbors g v)))"
    have ih: "?res \<subseteq> set (seen @ [v]) \<union> (edge_rel g)\<^sup>* `` set (nextlevel @ map fst (neighbors g v))"
      using 2 False by simp
    have "?res \<subseteq> set seen \<union> (edge_rel g)\<^sup>* `` set (v # nextlevel)"
    proof
      fix x assume "x \<in> ?res"
      with ih have "x \<in> set (seen @ [v]) \<union> (edge_rel g)\<^sup>* `` set (nextlevel @ map fst (neighbors g v))"
        by (rule subsetD)
      then have "x \<in> set seen \<or> x = v \<or> x \<in> (edge_rel g)\<^sup>* `` set nextlevel
        \<or> x \<in> (edge_rel g)\<^sup>* `` ?N"
        by (simp add: Image_Un) blast
      then consider "x \<in> set seen" | "x = v" | "x \<in> (edge_rel g)\<^sup>* `` set nextlevel"
        | "x \<in> (edge_rel g)\<^sup>* `` ?N"
        by blast
      then show "x \<in> set seen \<union> (edge_rel g)\<^sup>* `` set (v # nextlevel)"
      proof cases
        case 1 then show ?thesis by simp
      next
        case 2 then show ?thesis by auto
      next
        case 3 then show ?thesis by auto
      next
        case 4
        then obtain u where u: "u \<in> ?N" and ux: "(u, x) \<in> (edge_rel g)\<^sup>*" by auto
        from u have "(v, u) \<in> edge_rel g"
          using neighbors_edge_rel[of g v] by auto
        then have "(v, x) \<in> (edge_rel g)\<^sup>*"
          using ux by (rule converse_rtrancl_into_rtrancl)
        then show ?thesis by auto
      qed
    qed
    then show ?thesis using False by simp
  qed
qed

lemma node_connected_component_set:
  assumes "wf_graph g" and "v \<in> set (g_nodes g)"
  shows "set (node_connected_component g v) = component_of g v"
proof
  show "set (node_connected_component g v) \<subseteq> component_of g v"
    using plain_bfs_sound[of g "[]" "[v]"]
    by (simp add: node_connected_component_def component_of_def)
next
  have v: "v \<in> set (node_connected_component g v)"
    using plain_bfs_todo[of "[v]" g "[]"] assms(2) by (simp add: node_connected_component_def)
  have cl: "edge_rel g `` set (node_connected_component g v) \<subseteq> set (node_connected_component g v)"
    unfolding node_connected_component_def
    by (rule plain_bfs_closed[OF assms(1)]) simp
  show "component_of g v \<subseteq> set (node_connected_component g v)"
    unfolding component_of_def using closed_reach[OF cl v] by auto
qed

lemma node_connected_component_distinct: "distinct (node_connected_component g v)"
  by (simp add: node_connected_component_def plain_bfs_distinct)

subsection \<open>The search for shortest paths\<close>

definition seen_keys :: "dstate \<Rightarrow> node set" where
  "seen_keys st = fst ` set (d_seen st)"

definition dist_keys :: "dstate \<Rightarrow> node set" where
  "dist_keys st = fst ` set (d_dist st)"

definition fringe_nodes :: "dstate \<Rightarrow> node set" where
  "fringe_nodes st = (\<lambda>e. snd (snd e)) ` set (d_fringe st)"

definition relax_inv :: "node set \<Rightarrow> dstate \<Rightarrow> bool" where
  "relax_inv C st \<longleftrightarrow>
     set (d_paths st) = seen_keys st \<and> distinct (d_paths st) \<and>
     fringe_nodes st \<subseteq> seen_keys st \<and>
     seen_keys st - dist_keys st \<subseteq> fringe_nodes st \<and>
     seen_keys st \<subseteq> C \<and> dist_keys st \<subseteq> seen_keys st"

lemma relax_keeps:
  assumes "relax_inv C st" and "fst uc \<in> C"
  shows "relax_inv C (relax dv uc st) \<and> fst uc \<in> seen_keys (relax dv uc st) \<and>
         seen_keys st \<subseteq> seen_keys (relax dv uc st)"
proof (cases "fst uc \<in> fst ` set (d_dist st)")
  case True
  then have "relax dv uc st = st" by (simp add: relax_def Let_def)
  moreover have "fst uc \<in> seen_keys st"
    using True assms(1) by (auto simp: relax_inv_def dist_keys_def)
  ultimately show ?thesis using assms(1) by simp
next
  case notdist: False
  show ?thesis
  proof (cases "case map_of (d_seen st) (fst uc) of None \<Rightarrow> True | Some su \<Rightarrow> dv + snd uc < su")
    case True
    then have eq: "relax dv uc st =
        st\<lparr>d_seen := (fst uc, dv + snd uc) # d_seen st,
           d_fringe := d_fringe st @ [(dv + snd uc, d_count st, fst uc)],
           d_count := Suc (d_count st),
           d_paths := (if fst uc \<in> set (d_paths st) then d_paths st else d_paths st @ [fst uc])\<rparr>"
      using notdist by (simp add: relax_def Let_def)
    show ?thesis
      unfolding eq using assms
      by (auto simp: relax_inv_def seen_keys_def dist_keys_def fringe_nodes_def)
  next
    case False
    then have eq: "relax dv uc st = st" using notdist by (simp add: relax_def Let_def)
    from False have "map_of (d_seen st) (fst uc) \<noteq> None" by (auto split: option.splits)
    then have "fst uc \<in> seen_keys st"
      by (simp add: seen_keys_def map_of_eq_None_iff)
    then show ?thesis using assms(1) eq by simp
  qed
qed

lemma fold_relax_keeps:
  assumes "relax_inv C st" and "fst ` set ns \<subseteq> C"
  shows "relax_inv C (fold (relax dv) ns st) \<and> fst ` set ns \<subseteq> seen_keys (fold (relax dv) ns st) \<and>
         seen_keys st \<subseteq> seen_keys (fold (relax dv) ns st)"
  using assms
proof (induction ns arbitrary: st)
  case Nil
  then show ?case by simp
next
  case (Cons uc ns)
  from relax_keeps[of C st uc dv] Cons.prems
  have r: "relax_inv C (relax dv uc st)" "fst uc \<in> seen_keys (relax dv uc st)"
    "seen_keys st \<subseteq> seen_keys (relax dv uc st)"
    by simp_all
  from Cons.IH[OF r(1)] Cons.prems(2)
  have f: "relax_inv C (fold (relax dv) ns (relax dv uc st))"
    "fst ` set ns \<subseteq> seen_keys (fold (relax dv) ns (relax dv uc st))"
    "seen_keys (relax dv uc st) \<subseteq> seen_keys (fold (relax dv) ns (relax dv uc st))"
    by simp_all
  show ?case using r f by auto
qed

definition dijkstra_inv :: "graph \<Rightarrow> node \<Rightarrow> dstate \<Rightarrow> bool" where
  "dijkstra_inv g src st \<longleftrightarrow>
     relax_inv (component_of g src) st \<and> distinct (map fst (d_dist st)) \<and>
     edge_rel g `` dist_keys st \<subseteq> seen_keys st \<and> src \<in> seen_keys st"

lemma dijkstra_inv_init:
  "dijkstra_inv g src \<lparr>d_dist = [], d_seen = [(src, 0)], d_fringe = [(0, 0, src)],
                      d_count = 1, d_paths = [src]\<rparr>"
  by (simp add: dijkstra_inv_def relax_inv_def seen_keys_def dist_keys_def fringe_nodes_def
      component_of_self)

lemma fringe_nodes_remove1:
  assumes "u \<in> fringe_nodes st" and "u \<noteq> snd (snd e)"
  shows "u \<in> fringe_nodes (st\<lparr>d_fringe := remove1 e (d_fringe st)\<rparr>)"
proof -
  from assms(1) obtain x where x: "x \<in> set (d_fringe st)" "u = snd (snd x)"
    by (auto simp: fringe_nodes_def)
  with assms(2) have "x \<noteq> e" by auto
  with x(1) have "x \<in> set (remove1 e (d_fringe st))" by simp
  with x(2) show ?thesis by (auto simp: fringe_nodes_def)
qed

lemma fringe_nodes_remove1_subset:
  "fringe_nodes (st\<lparr>d_fringe := remove1 e (d_fringe st)\<rparr>) \<subseteq> fringe_nodes st"
  using set_remove1_subset[of e "d_fringe st"] by (auto simp: fringe_nodes_def)

lemma keys_update [simp]:
  "seen_keys (st\<lparr>d_fringe := f\<rparr>) = seen_keys st"
  "seen_keys (st\<lparr>d_dist := d\<rparr>) = seen_keys st"
  "dist_keys (st\<lparr>d_fringe := f\<rparr>) = dist_keys st"
  "dist_keys (st\<lparr>d_dist := d\<rparr>) = fst ` set d"
  "fringe_nodes (st\<lparr>d_dist := d\<rparr>) = fringe_nodes st"
  by (simp_all add: seen_keys_def dist_keys_def fringe_nodes_def)

lemma relax_invI:
  assumes "set (d_paths st) = seen_keys st" and "distinct (d_paths st)"
    and "fringe_nodes st \<subseteq> seen_keys st" and "seen_keys st - dist_keys st \<subseteq> fringe_nodes st"
    and "seen_keys st \<subseteq> C" and "dist_keys st \<subseteq> seen_keys st"
  shows "relax_inv C st"
  using assms unfolding relax_inv_def by blast

lemma relax_invD:
  assumes "relax_inv C st"
  shows "set (d_paths st) = seen_keys st" and "distinct (d_paths st)"
    and "fringe_nodes st \<subseteq> seen_keys st" and "seen_keys st - dist_keys st \<subseteq> fringe_nodes st"
    and "seen_keys st \<subseteq> C" and "dist_keys st \<subseteq> seen_keys st"
  using assms unfolding relax_inv_def by blast+

lemma dijkstra_step_inv:
  assumes wf: "wf_graph g" and src: "src \<in> set (g_nodes g)"
    and inv: "dijkstra_inv g src st" and ne: "d_fringe st \<noteq> []"
  shows "dijkstra_inv g src (dijkstra_step g st)"
proof -
  let ?C = "component_of g src"
  let ?e = "least_entry (hd (d_fringe st)) (tl (d_fringe st))"
  let ?v = "snd (snd ?e)"
  let ?st1 = "st\<lparr>d_fringe := remove1 ?e (d_fringe st)\<rparr>"
  from inv have ri: "relax_inv ?C st" and dd: "distinct (map fst (d_dist st))"
    and cl: "edge_rel g `` dist_keys st \<subseteq> seen_keys st" and s: "src \<in> seen_keys st"
    by (simp_all add: dijkstra_inv_def)
  note r = relax_invD[OF ri]
  have mem: "?e \<in> set (d_fringe st)" using ne by (rule least_entry_fringe)
  then have vF: "?v \<in> fringe_nodes st" by (auto simp: fringe_nodes_def)
  with r(3) have vK: "?v \<in> seen_keys st" by blast
  with r(5) have vC: "?v \<in> ?C" by blast
  from vC have vN: "?v \<in> set (g_nodes g)"
    using component_of_nodes[OF wf src] by blast
  have F1: "fringe_nodes ?st1 \<subseteq> seen_keys st"
    using fringe_nodes_remove1_subset[of ?e st] r(3) by blast
  have rest: "seen_keys st - insert ?v (dist_keys st) \<subseteq> fringe_nodes ?st1"
  proof
    fix u assume u: "u \<in> seen_keys st - insert ?v (dist_keys st)"
    then have "u \<in> fringe_nodes st" using r(4) by blast
    moreover have "u \<noteq> ?v" using u by blast
    ultimately show "u \<in> fringe_nodes ?st1" by (rule fringe_nodes_remove1)
  qed
  show ?thesis
  proof (cases "?v \<in> fst ` set (d_dist st)")
    case True
    then have eq: "dijkstra_step g st = ?st1"
      by (simp add: dijkstra_step_def Let_def)
    from True have "insert ?v (dist_keys st) = dist_keys st"
      by (auto simp: dist_keys_def)
    with rest have "seen_keys st - dist_keys st \<subseteq> fringe_nodes ?st1" by simp
    then have "relax_inv ?C ?st1"
      using r F1 by (intro relax_invI) simp_all
    then show ?thesis
      unfolding eq using dd cl s by (simp add: dijkstra_inv_def)
  next
    case False
    let ?st2 = "?st1\<lparr>d_dist := d_dist ?st1 @ [(?v, fst ?e)]\<rparr>"
    let ?st3 = "fold (relax (fst ?e)) (neighbors g ?v) ?st2"
    from False vN have eq: "dijkstra_step g st = ?st3"
      by (simp add: dijkstra_step_def Let_def)
    have dk2: "dist_keys ?st2 = insert ?v (dist_keys st)"
      by (auto simp: dist_keys_def)
    have sk2: "seen_keys ?st2 = seen_keys st" by simp
    have fn2: "fringe_nodes ?st2 = fringe_nodes ?st1" by simp
    have p2: "d_paths ?st2 = d_paths st" by simp
    have ri2: "relax_inv ?C ?st2"
    proof (rule relax_invI)
      show "set (d_paths ?st2) = seen_keys ?st2" unfolding p2 sk2 by (rule r(1))
      show "distinct (d_paths ?st2)" unfolding p2 by (rule r(2))
      show "fringe_nodes ?st2 \<subseteq> seen_keys ?st2" unfolding fn2 sk2 by (rule F1)
      show "seen_keys ?st2 - dist_keys ?st2 \<subseteq> fringe_nodes ?st2"
        unfolding fn2 sk2 dk2 by (rule rest)
      show "seen_keys ?st2 \<subseteq> ?C" unfolding sk2 by (rule r(5))
      show "dist_keys ?st2 \<subseteq> seen_keys ?st2" unfolding sk2 dk2 using r(6) vK by blast
    qed
    have nb: "fst ` set (neighbors g ?v) \<subseteq> ?C"
    proof
      fix u assume "u \<in> fst ` set (neighbors g ?v)"
      then have "(?v, u) \<in> edge_rel g" using neighbors_edge_rel[of g ?v] by blast
      moreover have "(src, ?v) \<in> (edge_rel g)\<^sup>*" using vC by (simp add: component_of_def)
      ultimately have "(src, u) \<in> (edge_rel g)\<^sup>*" by (rule rtrancl_into_rtrancl[rotated])
      then show "u \<in> ?C" by (simp add: component_of_def)
    qed
    note fr = fold_relax_keeps[OF ri2 nb, of "fst ?e"]
    from fr have ri3: "relax_inv ?C ?st3" by blast
    from fr have nbK: "fst ` set (neighbors g ?v) \<subseteq> seen_keys ?st3" by blast
    from fr have mono: "seen_keys st \<subseteq> seen_keys ?st3" unfolding sk2 by blast
    have d3: "d_dist ?st3 = d_dist st @ [(?v, fst ?e)]" by simp
    have dk3: "dist_keys ?st3 = insert ?v (dist_keys st)"
      unfolding dist_keys_def d3 by simp
    have "distinct (map fst (d_dist ?st3))"
      unfolding d3 using dd False by simp
    moreover have "edge_rel g `` dist_keys ?st3 \<subseteq> seen_keys ?st3"
    proof
      fix u assume "u \<in> edge_rel g `` dist_keys ?st3"
      then consider "u \<in> edge_rel g `` dist_keys st" | "u \<in> edge_rel g `` {?v}"
        unfolding dk3 by blast
      then show "u \<in> seen_keys ?st3"
      proof cases
        case 1 then show ?thesis using cl mono by blast
      next
        case 2 then show ?thesis using nbK neighbors_edge_rel[of g ?v] by blast
      qed
    qed
    moreover have "src \<in> seen_keys ?st3" using s mono by blast
    ultimately show ?thesis
      unfolding eq using ri3 by (simp only: dijkstra_inv_def simp_thms)
  qed
qed

lemma dijkstra_loop_inv:
  assumes "wf_graph g" and "src \<in> set (g_nodes g)" and "dijkstra_inv g src st"
  shows "dijkstra_inv g src (dijkstra_loop g st) \<and> d_fringe (dijkstra_loop g st) = []"
  using assms
proof (induction g st rule: dijkstra_loop.induct)
  case (1 g st)
  show ?case
  proof (cases "d_fringe st = []")
    case True
    then show ?thesis using "1.prems" by (simp add: dijkstra_loop.simps)
  next
    case False
    have "dijkstra_inv g src (dijkstra_step g st)"
      using "1.prems" False by (intro dijkstra_step_inv)
    with 1 False show ?thesis by (simp add: dijkstra_loop.simps[of g st])
  qed
qed

lemma single_source_dijkstra_keys:
  assumes "wf_graph g" and "src \<in> set (g_nodes g)"
  shows "set (d_paths (single_source_dijkstra g src)) = component_of g src"
    and "fst ` set (d_dist (single_source_dijkstra g src)) = component_of g src"
    and "distinct (d_paths (single_source_dijkstra g src))"
proof -
  let ?st = "single_source_dijkstra g src"
  have "dijkstra_inv g src ?st \<and> d_fringe ?st = []"
    unfolding single_source_dijkstra_def
    by (rule dijkstra_loop_inv[OF assms dijkstra_inv_init])
  then have ri: "relax_inv (component_of g src) ?st" and cl: "edge_rel g `` dist_keys ?st \<subseteq> seen_keys ?st"
    and s: "src \<in> seen_keys ?st" and f: "fringe_nodes ?st = {}"
    by (simp_all add: dijkstra_inv_def fringe_nodes_def)
  from ri f have kd: "seen_keys ?st = dist_keys ?st"
    by (auto simp: relax_inv_def)
  have "component_of g src \<subseteq> seen_keys ?st"
    unfolding component_of_def using closed_reach[OF cl[folded kd] s] by auto
  moreover have "seen_keys ?st \<subseteq> component_of g src" using ri by (simp add: relax_inv_def)
  ultimately have k: "seen_keys ?st = component_of g src" by auto
  show "set (d_paths ?st) = component_of g src" using ri k by (simp add: relax_inv_def)
  show "fst ` set (d_dist ?st) = component_of g src" using kd k by (simp add: dist_keys_def)
  show "distinct (d_paths ?st)" using ri by (simp add: relax_inv_def)
qed

subsection \<open>The table of costs\<close>

lemma cost_row_keys:
  assumes "\<And>j. j \<in> set ks \<Longrightarrow> j \<noteq> i \<Longrightarrow> lookup_cost mlc i j \<noteq> None"
  shows "\<exists>row. cost_row mlc i ks = Inr row \<and> map fst row = filter (\<lambda>j. j \<noteq> i) ks"
  using assms
proof (induction ks)
  case Nil
  show ?case by simp
next
  case (Cons j ks)
  then obtain row where row: "cost_row mlc i ks = Inr row" "map fst row = filter (\<lambda>j. j \<noteq> i) ks"
    by auto
  show ?case
  proof (cases "i = j")
    case True
    with row show ?thesis by simp
  next
    case False
    with Cons.prems[of j] obtain c where "lookup_cost mlc i j = Some c" by auto
    with False row show ?thesis by simp
  qed
qed

lemma build_costs_keys:
  assumes "\<forall>i ks j. (i, ks) \<in> set paths \<longrightarrow> j \<in> set ks \<longrightarrow> j \<noteq> i \<longrightarrow> lookup_cost mlc i j \<noteq> None"
    and "distinct (map fst paths)"
  shows "\<exists>costs. build_costs mlc paths = Inr costs \<and> fst ` set costs \<subseteq> fst ` set paths \<and>
           (\<forall>i ks. (i, ks) \<in> set paths \<longrightarrow> map fst (costs_items costs i) = filter (\<lambda>j. j \<noteq> i) ks)"
  using assms
proof (induction paths)
  case Nil
  show ?case by simp
next
  case (Cons p paths)
  obtain i ks where p: "p = (i, ks)" by (cases p)
  have "\<exists>costs. build_costs mlc paths = Inr costs \<and> fst ` set costs \<subseteq> fst ` set paths \<and>
           (\<forall>i ks. (i, ks) \<in> set paths \<longrightarrow> map fst (costs_items costs i) = filter (\<lambda>j. j \<noteq> i) ks)"
    using Cons.prems by (intro Cons.IH) auto
  then obtain costs where costs: "build_costs mlc paths = Inr costs"
      "fst ` set costs \<subseteq> fst ` set paths"
      "\<forall>i ks. (i, ks) \<in> set paths \<longrightarrow> map fst (costs_items costs i) = filter (\<lambda>j. j \<noteq> i) ks"
    by blast
  have "\<exists>row. cost_row mlc i ks = Inr row \<and> map fst row = filter (\<lambda>j. j \<noteq> i) ks"
    using Cons.prems(1) p by (intro cost_row_keys) auto
  then obtain row where row: "cost_row mlc i ks = Inr row" "map fst row = filter (\<lambda>j. j \<noteq> i) ks"
    by blast
  let ?costs = "if row = [] then costs else (i, row) # costs"
  have b: "build_costs mlc (p # paths) = Inr ?costs"
    using p costs(1) row(1) by simp
  have inew: "i \<notin> fst ` set paths" using Cons.prems(2) p by auto
  then have "map_of costs i = None"
    using costs(2) by (auto simp: map_of_eq_None_iff)
  then have here: "costs_items ?costs i = row"
    by (simp add: costs_items_def)
  have other: "costs_items ?costs i' = costs_items costs i'" if "i' \<noteq> i" for i'
    using that by (simp add: costs_items_def)
  have "\<forall>i' ks'. (i', ks') \<in> set (p # paths) \<longrightarrow>
          map fst (costs_items ?costs i') = filter (\<lambda>j. j \<noteq> i') ks'"
  proof (intro allI impI)
    fix i' ks' assume m: "(i', ks') \<in> set (p # paths)"
    show "map fst (costs_items ?costs i') = filter (\<lambda>j. j \<noteq> i') ks'"
    proof (cases "(i', ks') = p")
      case True
      then show ?thesis using p here row(2) by simp
    next
      case False
      with m have m': "(i', ks') \<in> set paths" by simp
      then have "i' \<noteq> i" using inew by force
      then show ?thesis using other costs(3) m' by simp
    qed
  qed
  moreover have "fst ` set ?costs \<subseteq> fst ` set (p # paths)"
    using costs(2) p by auto
  ultimately show ?case using b by blast
qed

lemma map_of_graph_nodes:
  "map_of (map (\<lambda>n. (n, f n)) xs) i = (if i \<in> set xs then Some (f i) else None)"
  by (induction xs) auto

lemma lookup_cost_all_pairs:
  assumes "wf_graph g" and "i \<in> set (g_nodes g)" and "j \<in> component_of g i"
  shows "lookup_cost (all_pairs_dijkstra_path_length g) i j \<noteq> None"
proof -
  have "j \<in> fst ` set (d_dist (single_source_dijkstra g i))"
    using single_source_dijkstra_keys(2)[OF assms(1,2)] assms(3) by simp
  then have "map_of (d_dist (single_source_dijkstra g i)) j \<noteq> None"
    by (simp add: map_of_eq_None_iff)
  then show ?thesis
    using assms(2)
    by (simp add: lookup_cost_def all_pairs_dijkstra_path_length_def map_of_graph_nodes)
qed

lemma compute_costs_keys:
  assumes wf: "wf_graph g"
  shows "\<exists>costs. compute_costs g = Inr \<lparr>pl_graph = g, pl_costs = costs\<rparr> \<and>
           (\<forall>i \<in> set (g_nodes g). fst ` set (costs_items costs i) = component_of g i - {i})"
proof -
  let ?paths = "all_pairs_dijkstra_path g"
  let ?mlc = "all_pairs_dijkstra_path_length g"
  have d: "distinct (map fst ?paths)"
    using wf by (simp add: all_pairs_dijkstra_path_def wf_graph_def comp_def)
  have ks: "i \<in> set (g_nodes g) \<and> ks = d_paths (single_source_dijkstra g i)"
    if "(i, ks) \<in> set ?paths" for i ks
    using that by (auto simp: all_pairs_dijkstra_path_def)
  have look: "\<forall>i ks j. (i, ks) \<in> set ?paths \<longrightarrow> j \<in> set ks \<longrightarrow> j \<noteq> i \<longrightarrow> lookup_cost ?mlc i j \<noteq> None"
  proof (intro allI impI)
    fix i ks j assume m: "(i, ks) \<in> set ?paths" and j: "j \<in> set ks"
    from ks[OF m] have i: "i \<in> set (g_nodes g)" and k: "ks = d_paths (single_source_dijkstra g i)"
      by simp_all
    from j have "j \<in> component_of g i"
      unfolding k using single_source_dijkstra_keys(1)[OF wf i] by simp
    then show "lookup_cost ?mlc i j \<noteq> None" by (rule lookup_cost_all_pairs[OF wf i])
  qed
  from build_costs_keys[OF look d]
  obtain costs where c: "build_costs ?mlc ?paths = Inr costs"
    and r: "\<forall>i ks. (i, ks) \<in> set ?paths \<longrightarrow> map fst (costs_items costs i) = filter (\<lambda>j. j \<noteq> i) ks"
    by blast
  have "fst ` set (costs_items costs i) = component_of g i - {i}" if i: "i \<in> set (g_nodes g)" for i
  proof -
    have "(i, d_paths (single_source_dijkstra g i)) \<in> set ?paths"
      using i by (auto simp: all_pairs_dijkstra_path_def)
    with r have "set (map fst (costs_items costs i))
        = set (filter (\<lambda>j. j \<noteq> i) (d_paths (single_source_dijkstra g i)))"
      by simp
    then show ?thesis
      using single_source_dijkstra_keys(1)[OF wf i] by auto
  qed
  then show ?thesis using c by (simp add: compute_costs_def)
qed

subsection \<open>Removing the small components\<close>

lemma components_from_are_components:
  "c \<in> set (components_from g seen vs) \<Longrightarrow> \<exists>v\<in>set vs. c = node_connected_component g v"
  by (induction g seen vs rule: components_from.induct) (auto split: if_splits)

lemma node_in_own_component:
  "v \<in> set (g_nodes g) \<Longrightarrow> v \<in> set (node_connected_component g v)"
  using plain_bfs_todo[of "[v]" g "[]"] by (simp add: node_connected_component_def)

lemma components_from_cover:
  assumes "v \<in> set vs" and "set vs \<subseteq> set (g_nodes g)"
  shows "v \<in> set seen \<or> (\<exists>c\<in>set (components_from g seen vs). v \<in> set c)"
  using assms
proof (induction g seen vs rule: components_from.induct)
  case (1 g seen)
  then show ?case by simp
next
  case (2 g seen u vs)
  show ?case
  proof (cases "u \<in> set seen")
    case True
    with 2 show ?thesis by auto
  next
    case False
    show ?thesis
    proof (cases "v = u")
      case True
      then have "v \<in> set (node_connected_component g u)"
        using "2.prems" node_in_own_component[of u g] by simp
      with False show ?thesis by simp
    next
      case neq: False
      with "2.prems" have "v \<in> set vs" "set vs \<subseteq> set (g_nodes g)" by auto
      with "2.IH"(2)[OF False] have "v \<in> set (seen @ node_connected_component g u) \<or>
          (\<exists>c\<in>set (components_from g (seen @ node_connected_component g u) vs). v \<in> set c)"
        by blast
      with False show ?thesis by auto
    qed
  qed
qed

definition isolated :: "graph \<Rightarrow> node set" where
  "isolated g = {v \<in> set (g_nodes g). component_of g v = {v}}"

lemma too_small_components:
  assumes wf: "wf_graph g"
  shows "\<Union> (set ` set (filter (\<lambda>component. length component < 2) (connected_components g)))
           = isolated g"
    (is "?U = _")
proof (rule set_eqI)
  fix v
  show "v \<in> ?U \<longleftrightarrow> v \<in> isolated g"
  proof
    assume "v \<in> ?U"
    then obtain c where c: "c \<in> set (connected_components g)" "length c < 2" "v \<in> set c"
      by auto
    from c(1) obtain u where u: "u \<in> set (g_nodes g)" "c = node_connected_component g u"
      unfolding connected_components_def by (blast dest: components_from_are_components)
    have sc: "set c = component_of g u"
      unfolding u(2) by (rule node_connected_component_set[OF wf u(1)])
    have "distinct c" unfolding u(2) by (rule node_connected_component_distinct)
    then have "card (set c) < 2" using c(2) by (simp add: distinct_card)
    moreover have "u \<in> set c" "v \<in> set c" using sc component_of_self c(3) by auto
    moreover have "0 < card (set c)" using c(3) by (auto simp: card_gt_0_iff)
    ultimately have "card (set c) = 1" and uc: "u \<in> set c" and vc: "v \<in> set c" by linarith+
    then obtain x where x: "set c = {x}" using card_1_singletonE[of "set c"] by auto
    with uc vc have "set c = {v}" and "v = u" by auto
    with sc u(1) show "v \<in> isolated g" by (simp add: isolated_def)
  next
    assume iso: "v \<in> isolated g"
    then have v: "v \<in> set (g_nodes g)" and cv: "component_of g v = {v}"
      by (simp_all add: isolated_def)
    from components_from_cover[of v "g_nodes g" g "[]"] v
    obtain c where c: "c \<in> set (connected_components g)" "v \<in> set c"
      by (auto simp: connected_components_def)
    from c(1) obtain u where u: "u \<in> set (g_nodes g)" "c = node_connected_component g u"
      unfolding connected_components_def by (blast dest: components_from_are_components)
    have sc: "set c = component_of g u"
      unfolding u(2) by (rule node_connected_component_set[OF wf u(1)])
    with c(2) have "component_of g v = component_of g u" by (intro component_of_eq) simp
    with sc cv have "set c = {v}" by simp
    moreover have "distinct c" unfolding u(2) by (rule node_connected_component_distinct)
    ultimately have "length c = 1" using distinct_card[of c] by simp
    with c show "v \<in> ?U" by auto
  qed
qed

lemma fold_remove_nodes_from:
  "g_nodes (fold remove_nodes_from cs g) = filter (\<lambda>v. v \<notin> \<Union> (set ` set cs)) (g_nodes g) \<and>
   g_edges (fold remove_nodes_from cs g) =
     filter (\<lambda>(a, b, w). a \<notin> \<Union> (set ` set cs) \<and> b \<notin> \<Union> (set ` set cs)) (g_edges g) \<and>
   g_vertex (fold remove_nodes_from cs g) = g_vertex g"
proof (induction cs arbitrary: g)
  case Nil
  show ?case by simp
next
  case (Cons c cs)
  have "filter (\<lambda>(a, b, w). a \<notin> \<Union> (set ` set cs) \<and> b \<notin> \<Union> (set ` set cs))
          (filter (\<lambda>(a, b, w). a \<notin> set c \<and> b \<notin> set c) es) =
        filter (\<lambda>(a, b, w). a \<notin> \<Union> (set ` set (c # cs)) \<and> b \<notin> \<Union> (set ` set (c # cs))) es" for es :: "(node \<times> node \<times> real) list"
    by (induction es) auto
  moreover have "filter (\<lambda>v. v \<notin> \<Union> (set ` set cs)) (filter (\<lambda>v. v \<notin> set c) vs) =
        filter (\<lambda>v. v \<notin> \<Union> (set ` set (c # cs))) vs" for vs :: "node list"
    by (induction vs) auto
  ultimately show ?case
    using Cons[of "remove_nodes_from c g"] by (simp add: remove_nodes_from_def)
qed

definition pruned :: "graph \<Rightarrow> graph" where
  "pruned g = pl_graph (remove_small_components \<lparr>pl_graph = g, pl_costs = []\<rparr>)"

lemma remove_small_components_graph:
  "pl_graph (remove_small_components p) = pruned (pl_graph p)"
  by (simp add: remove_small_components_def pruned_def Let_def)

lemma pruned_nodes:
  assumes "wf_graph g"
  shows "g_nodes (pruned g) = filter (\<lambda>v. v \<notin> isolated g) (g_nodes g)"
    and "g_edges (pruned g) = filter (\<lambda>(a, b, w). a \<notin> isolated g \<and> b \<notin> isolated g) (g_edges g)"
    and "g_vertex (pruned g) = g_vertex g"
  using fold_remove_nodes_from[of "filter (\<lambda>component. length component < 2) (connected_components g)" g]
  unfolding too_small_components[OF assms]
  by (simp_all add: pruned_def remove_small_components_def Let_def)

lemma edge_not_isolated:
  assumes wf: "wf_graph g" and e: "(a, b) \<in> edge_rel g" and ne: "a \<noteq> b"
  shows "a \<notin> isolated g"
proof
  assume "a \<in> isolated g"
  then have "component_of g a = {a}" by (simp add: isolated_def)
  moreover have "b \<in> component_of g a" using e by (auto simp: component_of_def)
  ultimately show False using ne by simp
qed

lemma pruned_edge_rel:
  assumes wf: "wf_graph g"
  shows "edge_rel (pruned g) = {(a, b) \<in> edge_rel g. a \<notin> isolated g \<and> b \<notin> isolated g}"
  unfolding edge_rel_def pruned_nodes(2)[OF wf] by auto

lemma pruned_reach:
  assumes wf: "wf_graph g"
  shows "(edge_rel (pruned g))\<^sup>* = (edge_rel g)\<^sup>*"
proof
  show "(edge_rel (pruned g))\<^sup>* \<subseteq> (edge_rel g)\<^sup>*"
    by (rule rtrancl_mono) (simp add: pruned_edge_rel[OF wf] subset_iff)
next
  have "edge_rel g - Id \<subseteq> edge_rel (pruned g)"
  proof
    fix p assume p: "p \<in> edge_rel g - Id"
    obtain a b where ab: "p = (a, b)" by (cases p)
    with p have e: "(a, b) \<in> edge_rel g" and ne: "a \<noteq> b" by auto
    from e have e': "(b, a) \<in> edge_rel g" using edge_rel_sym[of g] by (auto dest: symD)
    have "a \<notin> isolated g" by (rule edge_not_isolated[OF wf e ne])
    moreover have "b \<notin> isolated g" using ne by (intro edge_not_isolated[OF wf e']) simp
    ultimately show "p \<in> edge_rel (pruned g)"
      using e ab by (simp add: pruned_edge_rel[OF wf])
  qed
  then have "(edge_rel g - Id)\<^sup>* \<subseteq> (edge_rel (pruned g))\<^sup>*" by (rule rtrancl_mono)
  then show "(edge_rel g)\<^sup>* \<subseteq> (edge_rel (pruned g))\<^sup>*" by (simp add: rtrancl_r_diff_Id)
qed

lemma pruned_component: "wf_graph g \<Longrightarrow> component_of (pruned g) v = component_of g v"
  by (simp add: component_of_def pruned_reach)

lemma pruned_wf:
  assumes wf: "wf_graph g"
  shows "wf_graph (pruned g)"
  using wf unfolding wf_graph_def pruned_nodes[OF wf]
  by (auto simp: list_all_iff)

lemma pruned_node_component:
  assumes wf: "wf_graph g" and v: "v \<in> set (g_nodes (pruned g))"
  shows "v \<in> set (g_nodes g)" and "component_of g v \<noteq> {v}"
  using v unfolding pruned_nodes(1)[OF wf] by (auto simp: isolated_def)

subsection \<open>The greedy loop\<close>

lemma filter_keys:
  "fst ` set (filter (\<lambda>node_cost. fst node_cost \<in> A) xs) = fst ` set xs \<inter> A"
  by (induction xs) auto

lemma removeAll_rest: "removeAll x Q = [] \<or> set (removeAll x Q) - {x} \<noteq> {}"
proof (cases "removeAll x Q")
  case Nil
  then show ?thesis by simp
next
  case (Cons y ys)
  then have "y \<in> set (removeAll x Q)" by simp
  moreover have "x \<notin> set (removeAll x Q)" by simp
  ultimately have "y \<in> set (removeAll x Q) - {x}" by blast
  then show ?thesis by blast
qed

lemma visit_next:
  assumes "distinct T" and "set T \<inter> set Q = {}" and "x \<in> set Q"
  shows "distinct (T @ [x])" and "set (T @ [x]) \<inter> set (removeAll x Q) = {}"
    and "set (T @ [x]) \<union> set (removeAll x Q) = set T \<union> set Q"
  using assms by auto

lemma greedy_loop_step:
  assumes "Q \<noteq> []"
    and "filter (\<lambda>node_cost. fst node_cost \<in> set Q) (costs_items costs cur) = cand"
    and "cand \<noteq> []" and "pick_next cand = nxt"
  shows "greedy_loop costs cur Q T = greedy_loop costs nxt (removeAll nxt Q) (T @ [nxt])"
  using assms by (subst greedy_loop.simps) (simp add: Let_def)

lemma greedy_loop_covers:
  assumes "\<forall>u\<in>C. fst ` set (costs_items costs u) = C - {u}"
    and "set Q \<subseteq> C" and "cur \<in> C" and "Q = [] \<or> set Q - {cur} \<noteq> {}"
    and "distinct T" and "set T \<inter> set Q = {}"
  shows "\<exists>tour. greedy_loop costs cur Q T = Inr tour \<and> distinct tour \<and> set tour = set T \<union> set Q"
  using assms
proof (induction costs cur Q T rule: greedy_loop.induct)
  case (1 costs cur Q T)
  show ?case
  proof (cases "Q = []")
    case True
    then show ?thesis using "1.prems"(5) by (simp add: greedy_loop.simps)
  next
    case False
    define cand where "cand = filter (\<lambda>node_cost. fst node_cost \<in> set Q) (costs_items costs cur)"
    define nxt where "nxt = pick_next cand"
    have "fst ` set (costs_items costs cur) = C - {cur}"
      using "1.prems"(1,3) by blast
    then have "fst ` set cand = (C - {cur}) \<inter> set Q"
      unfolding cand_def by (simp only: filter_keys)
    also have "\<dots> = set Q - {cur}" using "1.prems"(2) by blast
    finally have keys: "fst ` set cand = set Q - {cur}" .
    have nonempty: "set Q - {cur} \<noteq> {}" using "1.prems"(4) False by blast
    have "fst ` set cand \<noteq> {}" unfolding keys by (rule nonempty)
    then have ne: "cand \<noteq> []" by auto
    have "nxt \<in> fst ` set cand" unfolding nxt_def using ne by (rule pick_next_mem)
    then have nQ: "nxt \<in> set Q" unfolding keys by blast
    then have nC: "nxt \<in> C" using "1.prems"(2) by blast
    have sub: "set (removeAll nxt Q) \<subseteq> C" using "1.prems"(2) by auto
    have step: "greedy_loop costs cur Q T = greedy_loop costs nxt (removeAll nxt Q) (T @ [nxt])"
      by (rule greedy_loop_step[OF False cand_def[symmetric] ne nxt_def[symmetric]])
    note v = visit_next[OF "1.prems"(5,6) nQ]
    note ih = "1.IH"[OF False cand_def ne, folded nxt_def]
    have "\<exists>tour. greedy_loop costs nxt (removeAll nxt Q) (T @ [nxt]) = Inr tour \<and> distinct tour \<and>
            set tour = set (T @ [nxt]) \<union> set (removeAll nxt Q)"
      by (rule ih[OF "1.prems"(1) sub nC removeAll_rest v(1) v(2)])
    then obtain tour where t: "greedy_loop costs nxt (removeAll nxt Q) (T @ [nxt]) = Inr tour"
      "distinct tour" "set tour = set (T @ [nxt]) \<union> set (removeAll nxt Q)"
      by blast
    have "set tour = set T \<union> set Q" unfolding t(3) by (rule v(3))
    with t(1,2) step show ?thesis by simp
  qed
qed

lemma random_choice_mem: "xs \<noteq> [] \<Longrightarrow> random_choice r xs \<in> set xs"
  by (simp add: random_choice_def)

lemma single_component_all_nodes:
  assumes wf: "wf_graph g" and one: "length (connected_components g) = 1"
    and v: "v \<in> set (g_nodes g)"
  shows "component_of g v = set (g_nodes g)"
proof -
  from one obtain c where cc: "connected_components g = [c]"
    by (cases "connected_components g") auto
  then obtain u where u: "u \<in> set (g_nodes g)" "c = node_connected_component g u"
    using components_from_are_components[of c g "[]" "g_nodes g"]
    by (auto simp: connected_components_def)
  have sc: "set c = component_of g u"
    unfolding u(2) by (rule node_connected_component_set[OF wf u(1)])
  have all: "x \<in> component_of g u" if "x \<in> set (g_nodes g)" for x
    using components_from_cover[of x "g_nodes g" g "[]"] that cc sc
    by (auto simp: connected_components_def)
  then have "component_of g u = set (g_nodes g)"
    using component_of_nodes[OF wf u(1)] by auto
  moreover have "component_of g v = component_of g u"
    using all[OF v] by (rule component_of_eq)
  ultimately show ?thesis by simp
qed

text \<open>
  C1. For a well-formed graph that keeps at least two nodes once the components
  with fewer than two nodes are removed, the planner's greedy path is computed
  whatever the random start node, it holds every node of the start node's component
  exactly once, the start node among them, and when the graph has one component its
  length is the number of nodes of the graph.
\<close>

theorem greedy_tour_visits_component_once:
  assumes wf: "wf_graph g"
    and p0: "compute_costs g = Inr p0"
    and enough: "2 \<le> length (g_nodes (pl_graph (remove_small_components p0)))"
  shows "\<exists>tour. greedy_traversal r (remove_small_components p0) = Inr tour \<and>
           distinct tour \<and>
           set tour = set (node_connected_component (pl_graph (remove_small_components p0))
                            (random_choice r (g_nodes (pl_graph (remove_small_components p0))))) \<and>
           random_choice r (g_nodes (pl_graph (remove_small_components p0))) \<in> set tour \<and>
           2 \<le> length tour \<and>
           (length (connected_components g) = 1 \<longrightarrow> length tour = length (g_nodes g))"
proof -
  from compute_costs_keys[OF wf] p0 obtain costs where
    p0_eq: "p0 = \<lparr>pl_graph = g, pl_costs = costs\<rparr>"
    and keys: "\<forall>i \<in> set (g_nodes g). fst ` set (costs_items costs i) = component_of g i - {i}"
    by auto
  let ?p = "remove_small_components p0"
  let ?g' = "pl_graph ?p"
  have g': "?g' = pruned g" by (simp add: remove_small_components_graph p0_eq)
  have pc: "pl_costs ?p = costs" by (simp add: remove_small_components_def Let_def p0_eq)
  let ?start = "random_choice r (g_nodes ?g')"
  let ?C = "component_of g ?start"
  have "g_nodes ?g' \<noteq> []" using enough by auto
  then have s': "?start \<in> set (g_nodes ?g')" by (rule random_choice_mem)
  then have s: "?start \<in> set (g_nodes g)" and big: "?C \<noteq> {?start}"
    unfolding g' using pruned_node_component[OF wf] by blast+
  have wf': "wf_graph ?g'" unfolding g' by (rule pruned_wf[OF wf])
  have Q: "set (node_connected_component ?g' ?start) = ?C"
    using node_connected_component_set[OF wf' s'] unfolding g' pruned_component[OF wf] .
  have CN: "?C \<subseteq> set (g_nodes g)" by (rule component_of_nodes[OF wf s])
  have rows: "\<forall>u\<in>?C. fst ` set (costs_items costs u) = ?C - {u}"
  proof
    fix u assume u: "u \<in> ?C"
    then have "component_of g u = ?C" by (rule component_of_eq)
    moreover have "u \<in> set (g_nodes g)" using u CN by auto
    ultimately show "fst ` set (costs_items costs u) = ?C - {u}" using keys by auto
  qed
  have other: "set (node_connected_component ?g' ?start) - {?start} \<noteq> {}"
    unfolding Q using big component_of_self[of ?start g] by auto
  from greedy_loop_covers[of ?C costs "node_connected_component ?g' ?start" ?start "[]"]
  obtain tour where t: "greedy_loop costs ?start (node_connected_component ?g' ?start) [] = Inr tour"
    "distinct tour" "set tour = set (node_connected_component ?g' ?start)"
    using rows Q other component_of_self[of ?start g] by auto
  have run: "greedy_traversal r ?p = Inr tour"
    using t(1) by (simp add: greedy_traversal_def Let_def pc)
  have st: "?start \<in> set tour" using t(3) Q component_of_self[of ?start g] by simp
  have "card (set tour) \<noteq> 1"
  proof
    assume "card (set tour) = 1"
    then obtain x where x: "set tour = {x}" using card_1_singletonE[of "set tour"] by auto
    with st have "x = ?start" by simp
    with x t(3) Q have "?C = {?start}" by simp
    with big show False by simp
  qed
  moreover have "0 < card (set tour)" using st by (auto simp: card_gt_0_iff)
  ultimately have len: "2 \<le> length tour" using distinct_card[OF t(2)] by linarith
  have one: "length tour = length (g_nodes g)" if "length (connected_components g) = 1"
  proof -
    have "set tour = set (g_nodes g)"
      using single_component_all_nodes[OF wf that s] t(3) Q by simp
    moreover have "distinct (g_nodes g)" using wf by (simp add: wf_graph_def)
    ultimately show ?thesis using t(2) by (metis distinct_card)
  qed
  show ?thesis using run t(2,3) st len one by blast
qed

text \<open>
  A graph of five nodes: a triangle with a tail, and an isolated node that the
  pruning removes.
\<close>

definition example_graph :: graph where
  "example_graph =
     \<lparr>g_nodes = [0, 1, 2, 3, 4],
      g_edges = [(0, 1, 2), (1, 2, 2), (0, 2, 1), (2, 3, 5)],
      g_vertex = (\<lambda>n. \<lparr>pos_x = real n, pos_y = 0\<rparr>)\<rparr>"

definition example_costs :: cost_table where
  "example_costs =
     [(0, [(1, 2), (2, 1), (3, 6)]), (1, [(0, 2), (2, 2), (3, 7)]),
      (2, [(1, 2), (0, 1), (3, 5)]), (3, [(2, 5), (1, 7), (0, 6)])]"

lemma example_graph_wf: "wf_graph example_graph"
  by (simp add: wf_graph_def example_graph_def)

lemma example_build_costs:
  "build_costs (all_pairs_dijkstra_path_length example_graph)
     (all_pairs_dijkstra_path example_graph) = Inr example_costs"
  by code_simp

lemma example_compute_costs:
  "compute_costs example_graph = Inr \<lparr>pl_graph = example_graph, pl_costs = example_costs\<rparr>"
  by (simp add: compute_costs_def example_build_costs)

lemma example_pruned_nodes:
  "g_nodes (pl_graph (remove_small_components \<lparr>pl_graph = example_graph, pl_costs = cs\<rparr>))
     = [0, 1, 2, 3]"
  by code_simp

lemma example_greedy:
  "greedy_traversal 1
     (remove_small_components \<lparr>pl_graph = example_graph, pl_costs = example_costs\<rparr>)
     = Inr [0, 2, 1, 3]"
  by code_simp

theorem greedy_tour_visits_component_once_witness:
  "wf_graph example_graph \<and>
   compute_costs example_graph = Inr \<lparr>pl_graph = example_graph, pl_costs = example_costs\<rparr> \<and>
   2 \<le> length (g_nodes (pl_graph (remove_small_components
          \<lparr>pl_graph = example_graph, pl_costs = example_costs\<rparr>))) \<and>
   greedy_traversal 1 (remove_small_components
          \<lparr>pl_graph = example_graph, pl_costs = example_costs\<rparr>) = Inr [0, 2, 1, 3] \<and>
   set [0, 2, 1, 3::nat] =
     set (node_connected_component
            (pl_graph (remove_small_components \<lparr>pl_graph = example_graph, pl_costs = example_costs\<rparr>))
            (random_choice 1 (g_nodes (pl_graph (remove_small_components
               \<lparr>pl_graph = example_graph, pl_costs = example_costs\<rparr>)))))"
proof -
  let ?p0 = "\<lparr>pl_graph = example_graph, pl_costs = example_costs\<rparr>"
  have e: "2 \<le> length (g_nodes (pl_graph (remove_small_components ?p0)))"
    by (simp add: example_pruned_nodes)
  from greedy_tour_visits_component_once[OF example_graph_wf example_compute_costs e, of 1]
  obtain tour where t: "greedy_traversal 1 (remove_small_components ?p0) = Inr tour"
    "set tour = set (node_connected_component (pl_graph (remove_small_components ?p0))
                      (random_choice 1 (g_nodes (pl_graph (remove_small_components ?p0)))))"
    by blast
  from t(1) have "tour = [0, 2, 1, 3]" unfolding example_greedy by (rule sum.inject(2)[THEN iffD1, symmetric])
  with t(2) have "set [0, 2, 1, 3::nat] = set (node_connected_component (pl_graph (remove_small_components ?p0))
                      (random_choice 1 (g_nodes (pl_graph (remove_small_components ?p0)))))"
    by simp
  with example_graph_wf example_compute_costs e example_greedy show ?thesis by blast
qed


section \<open>The counters of the dispatcher\<close>

text \<open>The state at the head of round \<^verbatim>\<open>k + n\<close> of the loop, from the state \<^verbatim>\<open>s\<close> at the head
  of round \<^verbatim>\<open>k\<close>; \<^verbatim>\<open>None\<close> when the loop has ended before.\<close>

fun loop_head :: "pylib \<Rightarrow> (nat \<Rightarrow> attempt) \<Rightarrow> nat \<Rightarrow> supervisor \<Rightarrow> nat \<Rightarrow> supervisor option" where
  "loop_head L env k s 0 = Some s"
| "loop_head L env k s (Suc n) =
     (case dispatch_iteration L (env k) s of
        Next s' \<Rightarrow> loop_head L env (Suc k) s' n
      | Stop r \<Rightarrow> None)"

definition counters_settled :: "supervisor \<Rightarrow> bool" where
  "counters_settled s = (goal_sent_count s = goal_succeeded_count s + goal_failed_count s)"

definition tour_in_step :: "supervisor \<Rightarrow> bool" where
  "tour_in_step s =
     (case num_goals s of
        None \<Rightarrow> False
      | Some n \<Rightarrow> int (length (traversal_path_poses s)) = n - goal_sent_count s)"

definition iteration_state :: "iteration \<Rightarrow> supervisor" where
  "iteration_state it = (case it of Next s \<Rightarrow> s | Stop r \<Rightarrow> outcome_state r)"

text \<open>What the invariant of the tour reads, and the two counters of classified goals.\<close>

definition tour_view :: "supervisor \<Rightarrow> int \<times> int option \<times> pose list" where
  "tour_view s = (goal_sent_count s, num_goals s, traversal_path_poses s)"

definition class_view :: "supervisor \<Rightarrow> int \<times> int" where
  "class_view s = (goal_succeeded_count s, goal_failed_count s)"

lemma run_callback_views [simp]:
  "tour_view (run_callback L cb s) = tour_view s"
  "class_view (run_callback L cb s) = class_view s"
proof -
  have "tour_view (run_callback L cb s) = tour_view s \<and>
        class_view (run_callback L cb s) = class_view s"
  proof (cases cb)
    case (AmclParticles msg)
    obtain ls where
      "outcome_state (amcl_particles_callback L msg s) = s\<lparr>amcl_particles_file := ls\<rparr>"
      using amcl_particles_callback_fields by blast
    with AmclParticles show ?thesis by (simp add: tour_view_def class_view_def)
  next
    case (PsSnapshotTimer results)
    obtain files n where "outcome_state (ps_snapshot_timer_callback results s) =
       s\<lparr>ps_snapshot_files := files, ps_snapshot_count := n\<rparr>"
      using ps_snapshot_timer_callback_fields by blast
    with PsSnapshotTimer show ?thesis by (simp add: tour_view_def class_view_def)
  qed (simp_all add: tour_view_def class_view_def ground_truth_pose_callback_def
        run_timeout_callback_def signal_shutdown_def write_event_def scan_callback_def
        estimated_pose_correction_callback_def write_estimated_pose_timer_callback_def
        outcome_state_def Let_def split: sum.splits)
  then show "tour_view (run_callback L cb s) = tour_view s"
    and "class_view (run_callback L cb s) = class_view s"
    by simp_all
qed

lemma run_callbacks_views [simp]:
  "tour_view (run_callbacks L cbs s) = tour_view s"
  "class_view (run_callbacks L cbs s) = class_view s"
  unfolding run_callbacks_def by (induction cbs arbitrary: s) simp_all

lemma write_event_views [simp]:
  "tour_view (write_event e s) = tour_view s" "class_view (write_event e s) = class_view s"
  by (simp_all add: tour_view_def class_view_def write_event_def)

lemma signal_shutdown_views [simp]:
  "tour_view (signal_shutdown r s) = tour_view s" "class_view (signal_shutdown r s) = class_view s"
  by (simp_all add: tour_view_def class_view_def signal_shutdown_def)

lemma current_goal_views [simp]:
  "tour_view (s\<lparr>current_goal := g\<rparr>) = tour_view s"
  "class_view (s\<lparr>current_goal := g\<rparr>) = class_view s"
  by (simp_all add: tour_view_def class_view_def)

lemma pop_and_send_views:
  "tour_view (pop_and_send goal rest s) = (goal_sent_count s, num_goals s, rest)"
  "class_view (pop_and_send goal rest s) = class_view s"
  by (simp_all add: pop_and_send_def tour_view_def class_view_def write_event_def Let_def)

lemma dispatch_goal_views:
  "tour_view (dispatch_goal goal rest s) = (goal_sent_count s + 1, num_goals s, rest)"
  "class_view (dispatch_goal goal rest s) = class_view s"
  using pop_and_send_views[of goal rest s]
  by (simp_all add: dispatch_goal_def tour_view_def class_view_def Let_def)

lemma classify_result_views:
  assumes "classify_result status goal s = Returned s'"
  shows "tour_view s' = tour_view s"
    and "class_view s' = (goal_succeeded_count s + 1, goal_failed_count s) \<or>
         class_view s' = (goal_succeeded_count s, goal_failed_count s + 1)"
  using assms
  by (auto simp: classify_result_def tour_view_def class_view_def write_event_def Let_def
      split: if_splits option.splits)

lemma classify_result_raised:
  "classify_result status goal s = Raised e s' \<Longrightarrow> s' = s"
  by (auto simp: classify_result_def Let_def split: if_splits option.splits)

lemma await_result_tour:
  "tour_view (iteration_state (await_result L a goal s)) = tour_view s"
proof (cases "classify_result (get_state a) goal (run_callbacks L (callbacks_waiting a) s)")
  case (Returned s2)
  from classify_result_views(1)[OF this] have "tour_view s2 = tour_view s" by simp
  with Returned show ?thesis
    by (simp add: await_result_def after_classification_def iteration_state_def outcome_state_def Let_def
        split: sum.splits bool.splits option.splits)
next
  case (Raised e s2)
  from classify_result_raised[OF this] have "s2 = run_callbacks L (callbacks_waiting a) s" .
  with Raised show ?thesis
    by (simp add: await_result_def after_classification_def iteration_state_def outcome_state_def Let_def
        split: sum.splits bool.splits option.splits)
qed

lemma await_result_classified:
  assumes "await_result L a goal s = Next s' \<or> await_result L a goal s = Stop (Returned s')"
  shows "class_view s' = (goal_succeeded_count s + 1, goal_failed_count s) \<or>
         class_view s' = (goal_succeeded_count s, goal_failed_count s + 1)"
proof (cases "classify_result (get_state a) goal (run_callbacks L (callbacks_waiting a) s)")
  case (Returned s2)
  have "class_view (run_callbacks L (callbacks_waiting a) s) = class_view s" by simp
  then have "goal_succeeded_count (run_callbacks L (callbacks_waiting a) s) = goal_succeeded_count s"
    "goal_failed_count (run_callbacks L (callbacks_waiting a) s) = goal_failed_count s"
    by (simp_all add: class_view_def)
  with classify_result_views(2)[OF Returned]
  have c: "class_view s2 = (goal_succeeded_count s + 1, goal_failed_count s) \<or>
         class_view s2 = (goal_succeeded_count s, goal_failed_count s + 1)"
    by simp
  have "class_view s' = class_view s2"
    using assms Returned
    by (auto simp: await_result_def after_classification_def Let_def split: sum.splits bool.splits option.splits if_splits)
  with c show ?thesis by simp
next
  case (Raised e s2)
  with assms show ?thesis
    by (auto simp: await_result_def after_classification_def Let_def split: sum.splits bool.splits option.splits if_splits)
qed

text \<open>A round in which a goal is sent and classified.\<close>

definition classified_round :: "supervisor \<Rightarrow> supervisor \<Rightarrow> bool" where
  "classified_round s s' =
     (traversal_path_poses s \<noteq> [] \<and>
      traversal_path_poses s' = tl (traversal_path_poses s) \<and>
      goal_sent_count s' = goal_sent_count s + 1 \<and>
      num_goals s' = num_goals s \<and>
      (goal_succeeded_count s' = goal_succeeded_count s + 1 \<and>
         goal_failed_count s' = goal_failed_count s \<or>
       goal_succeeded_count s' = goal_succeeded_count s \<and>
         goal_failed_count s' = goal_failed_count s + 1))"

lemma tour_in_step_view: "tour_view s' = tour_view s \<Longrightarrow> tour_in_step s \<Longrightarrow> tour_in_step s'"
  by (auto simp: tour_view_def tour_in_step_def split: option.splits)

lemma tour_in_step_dispatch_goal:
  assumes "tour_in_step s" and "traversal_path_poses s = goal # rest"
  shows "tour_in_step (dispatch_goal goal rest s)"
proof -
  from dispatch_goal_views(1)[of goal rest s]
  have "goal_sent_count (dispatch_goal goal rest s) = goal_sent_count s + 1"
    "num_goals (dispatch_goal goal rest s) = num_goals s"
    "traversal_path_poses (dispatch_goal goal rest s) = rest"
    by (simp_all add: tour_view_def)
  then show ?thesis using assms by (auto simp: tour_in_step_def split: option.splits)
qed

text \<open>
  Between line 237 and line 242 the tour has lost the goal and the goal is not yet
  counted: the tour is one shorter than \<^verbatim>\<open>num_goals - goal_sent_count\<close>.
\<close>

lemma pop_and_send_out_of_step:
  assumes "tour_in_step s" and "traversal_path_poses s = goal # rest"
  shows "traversal_path_poses (pop_and_send goal rest s) = rest"
    and "goal_sent_count (pop_and_send goal rest s) = goal_sent_count s"
    and "num_goals (pop_and_send goal rest s) = num_goals s"
    and "\<not> tour_in_step (pop_and_send goal rest s)"
proof -
  from pop_and_send_views(1)[of goal rest s]
  have v: "goal_sent_count (pop_and_send goal rest s) = goal_sent_count s"
    "num_goals (pop_and_send goal rest s) = num_goals s"
    "traversal_path_poses (pop_and_send goal rest s) = rest"
    by (simp_all add: tour_view_def)
  then show "traversal_path_poses (pop_and_send goal rest s) = rest"
    and "goal_sent_count (pop_and_send goal rest s) = goal_sent_count s"
    and "num_goals (pop_and_send goal rest s) = num_goals s"
    by simp_all
  show "\<not> tour_in_step (pop_and_send goal rest s)"
    using v assms by (auto simp: tour_in_step_def split: option.splits)
qed

lemma dispatch_iteration_tour:
  assumes "tour_in_step s"
  shows "tour_in_step (iteration_state (dispatch_iteration L a s))"
proof -
  let ?s1 = "run_callbacks L (callbacks_before a) s"
  have t1: "tour_in_step ?s1" using _ assms by (rule tour_in_step_view) simp
  have p1: "traversal_path_poses ?s1 = traversal_path_poses s" by simp
  show ?thesis
  proof (cases "is_shutdown ?s1 \<or> wait_for_server a \<noteq> Inr True \<or> traversal_path_poses s = []")
    case True
    then have "tour_view (iteration_state (dispatch_iteration L a s)) = tour_view ?s1"
      using p1
      by (auto simp: dispatch_iteration_def iteration_state_def outcome_state_def Let_def
          split: sum.splits bool.splits list.splits)
    then show ?thesis using t1 by (rule tour_in_step_view)
  next
    case False
    then obtain goal rest where gr: "traversal_path_poses ?s1 = goal # rest"
      using p1 by (cases "traversal_path_poses s") auto
    with False have "dispatch_iteration L a s = await_result L a goal (dispatch_goal goal rest ?s1)"
      by (auto simp: dispatch_iteration_def Let_def split: sum.splits bool.splits)
    then have "tour_view (iteration_state (dispatch_iteration L a s))
                 = tour_view (dispatch_goal goal rest ?s1)"
      by (simp add: await_result_tour)
    moreover have "tour_in_step (dispatch_goal goal rest ?s1)"
      using t1 gr by (rule tour_in_step_dispatch_goal)
    ultimately show ?thesis by (rule tour_in_step_view)
  qed
qed

lemma dispatch_iteration_round:
  assumes "dispatch_iteration L a s = Next s' \<or>
           dispatch_iteration L a s = Stop (Returned s') \<and>
             \<not> is_shutdown (run_callbacks L (callbacks_before a) s)"
  shows "classified_round s s'"
proof -
  let ?s1 = "run_callbacks L (callbacks_before a) s"
  have v1: "tour_view ?s1 = tour_view s" "class_view ?s1 = class_view s" by simp_all
  from assms obtain goal rest where gr: "traversal_path_poses ?s1 = goal # rest"
    and aw: "await_result L a goal (dispatch_goal goal rest ?s1) = Next s' \<or>
             await_result L a goal (dispatch_goal goal rest ?s1) = Stop (Returned s')"
    by (auto simp: dispatch_iteration_def Let_def split: sum.splits bool.splits list.splits if_splits)
  let ?s2 = "dispatch_goal goal rest ?s1"
  have "iteration_state (await_result L a goal ?s2) = s'"
    using aw by (auto simp: iteration_state_def outcome_state_def)
  with await_result_tour[of L a goal ?s2] have "tour_view s' = tour_view ?s2" by simp
  then have tv: "tour_view s' = (goal_sent_count s + 1, num_goals s, rest)"
    using dispatch_goal_views(1)[of goal rest ?s1] v1(1) by (simp add: tour_view_def)
  from await_result_classified[OF aw] dispatch_goal_views(2)[of goal rest ?s1] v1(2)
  have cv: "class_view s' = (goal_succeeded_count s + 1, goal_failed_count s) \<or>
            class_view s' = (goal_succeeded_count s, goal_failed_count s + 1)"
    by (simp add: class_view_def)
  from gr v1(1) have "traversal_path_poses s = goal # rest" by (simp add: tour_view_def)
  with tv cv show ?thesis
    by (auto simp: classified_round_def tour_view_def class_view_def)
qed

lemma classified_round_settled:
  "classified_round s s' \<Longrightarrow> counters_settled s \<Longrightarrow> counters_settled s'"
  by (auto simp: classified_round_def counters_settled_def)

lemma classified_round_tour:
  "classified_round s s' \<Longrightarrow> tour_in_step s \<Longrightarrow> tour_in_step s'"
  by (cases "traversal_path_poses s")
    (auto simp: classified_round_def tour_in_step_def split: option.splits)

lemma classified_round_view:
  assumes "classified_round s s2" and "tour_view s' = tour_view s2"
    and "class_view s' = class_view s2"
  shows "classified_round s s'"
  using assms by (simp add: classified_round_def tour_view_def class_view_def)

text \<open>
  The state right after the classification of a round, lines 249 to 263, when the
  round gets there: the node is not shut down, the server answers, the tour is not
  empty, the result comes in time and the classification raises nothing.
\<close>

definition round_classification :: "pylib \<Rightarrow> attempt \<Rightarrow> supervisor \<Rightarrow> supervisor option" where
  "round_classification L a s =
     (let s1 = run_callbacks L (callbacks_before a) s in
      if is_shutdown s1 \<or> wait_for_server a \<noteq> Inr True \<or> wait_for_result a \<noteq> Inr True
      then None
      else
        (case traversal_path_poses s1 of
           [] \<Rightarrow> None
         | goal # rest \<Rightarrow>
             (case classify_result (get_state a) goal
                     (run_callbacks L (callbacks_waiting a) (dispatch_goal goal rest s1)) of
                Raised e s2 \<Rightarrow> None
              | Returned s2 \<Rightarrow> Some s2)))"

lemma after_classification_views:
  "tour_view (iteration_state (after_classification a s2)) = tour_view s2"
  "class_view (iteration_state (after_classification a s2)) = class_view s2"
  by (simp_all add: after_classification_def iteration_state_def outcome_state_def Let_def
      split: option.splits)

lemma round_classification_round:
  assumes "round_classification L a s = Some s2"
  shows "classified_round s s2"
    and "dispatch_iteration L a s = after_classification a s2"
    and "classified_round s (iteration_state (dispatch_iteration L a s))"
proof -
  let ?s1 = "run_callbacks L (callbacks_before a) s"
  have v1: "tour_view ?s1 = tour_view s" "class_view ?s1 = class_view s" by simp_all
  from assms have sd: "\<not> is_shutdown ?s1" and ws: "wait_for_server a = Inr True"
    and wr: "wait_for_result a = Inr True"
    by (auto simp: round_classification_def Let_def split: if_splits)
  from assms sd ws wr obtain goal rest where gr: "traversal_path_poses ?s1 = goal # rest"
    and cl: "classify_result (get_state a) goal
               (run_callbacks L (callbacks_waiting a) (dispatch_goal goal rest ?s1)) = Returned s2"
    by (auto simp: round_classification_def Let_def split: list.splits outcome.splits)
  let ?d = "dispatch_goal goal rest ?s1"
  let ?w = "run_callbacks L (callbacks_waiting a) ?d"
  have aw: "await_result L a goal ?d = after_classification a s2"
    using wr cl by (simp add: await_result_def Let_def)
  show it: "dispatch_iteration L a s = after_classification a s2"
    using sd ws gr aw by (simp add: dispatch_iteration_def Let_def)
  have "tour_view s2 = tour_view ?w" using cl by (rule classify_result_views(1))
  then have "tour_view s2 = tour_view ?d" by simp
  then have tv: "tour_view s2 = (goal_sent_count s + 1, num_goals s, rest)"
    using dispatch_goal_views(1)[of goal rest ?s1] v1(1) by (simp add: tour_view_def)
  have "class_view ?w = class_view s"
    using dispatch_goal_views(2)[of goal rest ?s1] v1(2) by simp
  then have "goal_succeeded_count ?w = goal_succeeded_count s"
    "goal_failed_count ?w = goal_failed_count s"
    by (simp_all add: class_view_def)
  with classify_result_views(2)[OF cl]
  have cv: "class_view s2 = (goal_succeeded_count s + 1, goal_failed_count s) \<or>
            class_view s2 = (goal_succeeded_count s, goal_failed_count s + 1)"
    by simp
  from gr v1(1) have "traversal_path_poses s = goal # rest" by (simp add: tour_view_def)
  with tv cv show r: "classified_round s s2"
    by (auto simp: classified_round_def tour_view_def class_view_def)
  show "classified_round s (iteration_state (dispatch_iteration L a s))"
    unfolding it using r after_classification_views by (rule classified_round_view)
qed

lemma loop_head_settled:
  assumes "counters_settled s" and "tour_in_step s" and "loop_head L env k s n = Some sn"
  shows "counters_settled sn \<and> tour_in_step sn \<and> goal_sent_count sn = goal_sent_count s + int n \<and>
         num_goals sn = num_goals s"
  using assms
proof (induction n arbitrary: k s)
  case 0
  then show ?case by simp
next
  case (Suc n)
  from Suc.prems(3) obtain s' where it: "dispatch_iteration L (env k) s = Next s'"
    and rest: "loop_head L env (Suc k) s' n = Some sn"
    by (auto split: iteration.splits)
  have r: "classified_round s s'" using dispatch_iteration_round[of L "env k" s s'] it by simp
  then have c: "counters_settled s'" using Suc.prems(1) by (rule classified_round_settled)
  from dispatch_iteration_tour[OF Suc.prems(2), of L "env k"] it
  have t: "tour_in_step s'" by (simp add: iteration_state_def)
  from Suc.IH[OF c t rest] r show ?case by (auto simp: classified_round_def)
qed

lemma dispatch_loop_tour:
  assumes "tour_in_step s"
  shows "tour_in_step (outcome_state (dispatch_loop L env k s))"
  using assms
proof (induction L env k s rule: dispatch_loop.induct)
  case (1 L env k s)
  from dispatch_iteration_tour[OF "1.prems", of L "env k"]
  have t: "tour_in_step (iteration_state (dispatch_iteration L (env k) s))" .
  show ?case
  proof (cases "dispatch_iteration L (env k) s")
    case (Next s')
    with t have "tour_in_step s'" by (simp add: iteration_state_def)
    with "1.IH"[OF Next] Next show ?thesis by (simp add: dispatch_loop.simps[of L env k s])
  next
    case (Stop r)
    with t show ?thesis by (simp add: dispatch_loop.simps[of L env k s] iteration_state_def)
  qed
qed

lemma dispatch_loop_settled:
  assumes "counters_settled s" and "dispatch_loop L env k s = Returned sf"
  shows "counters_settled sf"
  using assms
proof (induction L env k s rule: dispatch_loop.induct)
  case (1 L env k s)
  show ?case
  proof (cases "dispatch_iteration L (env k) s")
    case (Next s')
    then have "classified_round s s'" using dispatch_iteration_round[of L "env k" s s'] by simp
    then have "counters_settled s'" using "1.prems"(1) by (rule classified_round_settled)
    with "1.IH"[OF Next] "1.prems"(2) Next show ?thesis
      by (simp add: dispatch_loop.simps[of L env k s])
  next
    case (Stop r)
    with "1.prems"(2) have it: "dispatch_iteration L (env k) s = Stop (Returned sf)"
      by (simp add: dispatch_loop.simps[of L env k s])
    show ?thesis
    proof (cases "is_shutdown (run_callbacks L (callbacks_before (env k)) s)")
      case True
      with it have "sf = run_callbacks L (callbacks_before (env k)) s"
        by (simp add: dispatch_iteration_def Let_def)
      then have "class_view sf = class_view s" "tour_view sf = tour_view s" by simp_all
      then show ?thesis using "1.prems"(1)
        by (simp add: counters_settled_def class_view_def tour_view_def)
    next
      case False
      with it have "classified_round s sf" using dispatch_iteration_round[of L "env k" s sf] by simp
      then show ?thesis using "1.prems"(1) by (rule classified_round_settled)
    qed
  qed
qed

lemma begin_dispatch_counters:
  assumes "goal_sent_count s = 0" and "goal_succeeded_count s = 0" and "goal_failed_count s = 0"
  shows "counters_settled (begin_dispatch poses s)" and "tour_in_step (begin_dispatch poses s)"
    and "goal_sent_count (begin_dispatch poses s) = 0"
    and "num_goals (begin_dispatch poses s) = Some (int (length poses))"
  using assms
  by (simp_all add: begin_dispatch_def counters_settled_def tour_in_step_def write_event_def Let_def)

section \<open>Example rounds\<close>

definition example_lib :: pylib where
  "example_lib = \<lparr>str_float = (\<lambda>r. str_int \<lfloor>r\<rfloor> @ ''.0''), yaw_of = (\<lambda>q. 0)\<rparr>"

definition pose_at :: "real \<Rightarrow> real \<Rightarrow> pose" where
  "pose_at a b =
     \<lparr>pose_position = \<lparr>pos_x = a, pos_y = b\<rparr>,
      pose_orientation = \<lparr>quat_x = 0, quat_y = 0, quat_z = 0, quat_w = 1\<rparr>\<rparr>"

definition odometry_at :: "real \<Rightarrow> real \<Rightarrow> odometry" where
  "odometry_at a b =
     \<lparr>od_stamp = 0, od_pose = pose_at a b, od_linear_x = 0, od_linear_y = 0, od_angular_z = 0\<rparr>"

text \<open>A round in which the goal is reached and the robot stands at \<^verbatim>\<open>(a, b)\<close>.\<close>

definition reached_round :: "real \<Rightarrow> real \<Rightarrow> attempt" where
  "reached_round a b =
     \<lparr>callbacks_before = [], wait_for_server = Inr True,
      callbacks_waiting = [GroundTruthPose (odometry_at a b)], wait_for_result = Inr True,
      get_state = SUCCEEDED, sleep_interrupt = None\<rparr>"

definition aborted_round :: attempt where
  "aborted_round =
     \<lparr>callbacks_before = [], wait_for_server = Inr True, callbacks_waiting = [],
      wait_for_result = Inr True, get_state = ABORTED, sleep_interrupt = None\<rparr>"

definition timeout_round :: attempt where
  "timeout_round =
     \<lparr>callbacks_before = [], wait_for_server = Inr True, callbacks_waiting = [],
      wait_for_result = Inr False, get_state = ACTIVE, sleep_interrupt = None\<rparr>"

text \<open>A round in which the goal is aborted and \<^verbatim>\<open>rospy.sleep\<close> is interrupted.\<close>

definition interrupted_round :: attempt where
  "interrupted_round =
     \<lparr>callbacks_before = [], wait_for_server = Inr True, callbacks_waiting = [],
      wait_for_result = Inr True, get_state = ABORTED, sleep_interrupt = Some KeyboardInterrupt\<rparr>"

definition example_rounds :: "nat \<Rightarrow> attempt" where
  "example_rounds k = (if k = 0 then reached_round 1 0 else interrupted_round)"

text \<open>The start of the dispatch loop with a tour of three waypoints.\<close>

definition example_start :: supervisor where
  "example_start =
     begin_dispatch [pose_at 1 0, pose_at 2 0, pose_at 3 0] (init_supervisor (1/2))"

lemmas example_defs =
  example_lib_def pose_at_def odometry_at_def reached_round_def aborted_round_def
  timeout_round_def interrupted_round_def example_rounds_def example_start_def
  init_supervisor_def begin_dispatch_def
  dispatch_iteration_def await_result_def after_classification_def dispatch_goal_def
  pop_and_send_def classify_result_def
  run_callbacks_def ground_truth_pose_callback_def write_event_def is_shutdown_def
  signal_shutdown_def Let_def

text \<open>
  C2, as the specification words it, does not hold of the dispatcher: the length of
  the tour is not \<^verbatim>\<open>num_goals - goal_sent_count\<close> at all times. At the start of the
  loop, with a tour of three waypoints, the tour and the counter are in step. In the
  first dispatch, once line 237 has popped the goal, line 240 has sent it and line 241
  has written the event \<^verbatim>\<open>target_pose_set\<close>, and before line 242 counts it, the tour
  holds 2 waypoints while \<^verbatim>\<open>num_goals - goal_sent_count\<close> is 3.
\<close>

theorem tour_out_of_step_before_count:
  "tour_in_step example_start \<and>
   traversal_path_poses example_start = [pose_at 1 0, pose_at 2 0, pose_at 3 0] \<and>
   \<not> tour_in_step (pop_and_send (pose_at 1 0) [pose_at 2 0, pose_at 3 0] example_start) \<and>
   num_goals (pop_and_send (pose_at 1 0) [pose_at 2 0, pose_at 3 0] example_start) = Some 3 \<and>
   goal_sent_count (pop_and_send (pose_at 1 0) [pose_at 2 0, pose_at 3 0] example_start) = 0 \<and>
   length (traversal_path_poses
     (pop_and_send (pose_at 1 0) [pose_at 2 0, pose_at 3 0] example_start)) = 2 \<and>
   sent_goals (pop_and_send (pose_at 1 0) [pose_at 2 0, pose_at 3 0] example_start) =
     [pose_at 1 0] \<and>
   run_events_file (pop_and_send (pose_at 1 0) [pose_at 2 0, pose_at 3 0] example_start) =
     [''run_start'', ''target_pose_set'']"
  by (simp add: example_defs tour_in_step_def)

text \<open>
  C2, amended. The dispatch loop starts from counters at zero and the planned tour,
  whose length is \<^verbatim>\<open>num_goals\<close>. At the head of every round the number of goals sent
  is the number succeeded plus the number failed, it is the number of rounds done, and
  the tour holds \<^verbatim>\<open>num_goals - goal_sent_count\<close> waypoints. A dispatch takes one
  waypoint from the front of the tour and then adds one to \<^verbatim>\<open>goal_sent_count\<close>:
  between the two, from line 237 to line 242, the tour is one shorter than
  \<^verbatim>\<open>num_goals - goal_sent_count\<close>; once the goal is counted its length is
  \<^verbatim>\<open>num_goals - goal_sent_count\<close> again. A round that sends a goal and classifies
  it adds one to exactly one of \<^verbatim>\<open>goal_succeeded_count\<close> and
  \<^verbatim>\<open>goal_failed_count\<close>; right after the classification the counters add up and the
  tour is in step, and so they are in the state the round ends in: at the head of the
  next round, when the run is completed, and when \<^verbatim>\<open>rospy.sleep\<close> is interrupted.
  The length of the tour is \<^verbatim>\<open>num_goals - goal_sent_count\<close> in the state the loop
  ends in, however it ends; when the loop returns, the counters add up.
\<close>

theorem dispatcher_counters:
  assumes "goal_sent_count s = 0" and "goal_succeeded_count s = 0" and "goal_failed_count s = 0"
  shows "(\<forall>n sn. loop_head L env 0 (begin_dispatch poses s) n = Some sn \<longrightarrow>
            counters_settled sn \<and> tour_in_step sn \<and> goal_sent_count sn = int n \<and>
            num_goals sn = Some (int (length poses)) \<and>
            (\<forall>goal rest. traversal_path_poses sn = goal # rest \<longrightarrow>
               tour_in_step (dispatch_goal goal rest
                 (run_callbacks L (callbacks_before (env n)) sn))) \<and>
            (\<forall>goal rest. traversal_path_poses sn = goal # rest \<longrightarrow>
               traversal_path_poses (pop_and_send goal rest
                 (run_callbacks L (callbacks_before (env n)) sn)) = rest \<and>
               goal_sent_count (pop_and_send goal rest
                 (run_callbacks L (callbacks_before (env n)) sn)) = goal_sent_count sn \<and>
               \<not> tour_in_step (pop_and_send goal rest
                 (run_callbacks L (callbacks_before (env n)) sn)) \<and>
               traversal_path_poses (dispatch_goal goal rest
                 (run_callbacks L (callbacks_before (env n)) sn)) = rest \<and>
               goal_sent_count (dispatch_goal goal rest
                 (run_callbacks L (callbacks_before (env n)) sn)) = goal_sent_count sn + 1) \<and>
            (\<forall>s'. dispatch_iteration L (env n) sn = Next s' \<or>
                   dispatch_iteration L (env n) sn = Stop (Returned s') \<and>
                     \<not> is_shutdown (run_callbacks L (callbacks_before (env n)) sn) \<longrightarrow>
                   classified_round sn s') \<and>
            (\<forall>s2. round_classification L (env n) sn = Some s2 \<longrightarrow>
               classified_round sn s2 \<and> counters_settled s2 \<and> tour_in_step s2 \<and>
               dispatch_iteration L (env n) sn = after_classification (env n) s2 \<and>
               classified_round sn (iteration_state (dispatch_iteration L (env n) sn)) \<and>
               counters_settled (iteration_state (dispatch_iteration L (env n) sn)))) \<and>
         tour_in_step (outcome_state (dispatch_loop L env 0 (begin_dispatch poses s))) \<and>
         (\<forall>sf. dispatch_loop L env 0 (begin_dispatch poses s) = Returned sf \<longrightarrow>
            counters_settled sf)"
proof -
  let ?start = "begin_dispatch poses s"
  note b = begin_dispatch_counters[OF assms, of poses]
  have heads: "counters_settled sn \<and> tour_in_step sn \<and> goal_sent_count sn = int n \<and>
            num_goals sn = Some (int (length poses)) \<and>
            (\<forall>goal rest. traversal_path_poses sn = goal # rest \<longrightarrow>
               tour_in_step (dispatch_goal goal rest
                 (run_callbacks L (callbacks_before (env n)) sn))) \<and>
            (\<forall>goal rest. traversal_path_poses sn = goal # rest \<longrightarrow>
               traversal_path_poses (pop_and_send goal rest
                 (run_callbacks L (callbacks_before (env n)) sn)) = rest \<and>
               goal_sent_count (pop_and_send goal rest
                 (run_callbacks L (callbacks_before (env n)) sn)) = goal_sent_count sn \<and>
               \<not> tour_in_step (pop_and_send goal rest
                 (run_callbacks L (callbacks_before (env n)) sn)) \<and>
               traversal_path_poses (dispatch_goal goal rest
                 (run_callbacks L (callbacks_before (env n)) sn)) = rest \<and>
               goal_sent_count (dispatch_goal goal rest
                 (run_callbacks L (callbacks_before (env n)) sn)) = goal_sent_count sn + 1) \<and>
            (\<forall>s'. dispatch_iteration L (env n) sn = Next s' \<or>
                   dispatch_iteration L (env n) sn = Stop (Returned s') \<and>
                     \<not> is_shutdown (run_callbacks L (callbacks_before (env n)) sn) \<longrightarrow>
                   classified_round sn s') \<and>
            (\<forall>s2. round_classification L (env n) sn = Some s2 \<longrightarrow>
               classified_round sn s2 \<and> counters_settled s2 \<and> tour_in_step s2 \<and>
               dispatch_iteration L (env n) sn = after_classification (env n) s2 \<and>
               classified_round sn (iteration_state (dispatch_iteration L (env n) sn)) \<and>
               counters_settled (iteration_state (dispatch_iteration L (env n) sn)))"
    if h: "loop_head L env 0 ?start n = Some sn" for n sn
  proof -
    let ?s1 = "run_callbacks L (callbacks_before (env n)) sn"
    from loop_head_settled[OF b(1,2) h] b(3,4)
    have c: "counters_settled sn" "tour_in_step sn" "goal_sent_count sn = int n"
      "num_goals sn = Some (int (length poses))"
      by simp_all
    have t1: "tour_in_step ?s1" using _ c(2) by (rule tour_in_step_view) simp
    have g1: "goal_sent_count ?s1 = goal_sent_count sn"
      using run_callbacks_views(1)[of L "callbacks_before (env n)" sn]
      by (simp add: tour_view_def)
    have d: "\<forall>goal rest. traversal_path_poses sn = goal # rest \<longrightarrow>
               tour_in_step (dispatch_goal goal rest ?s1)"
    proof (intro allI impI)
      fix goal rest assume "traversal_path_poses sn = goal # rest"
      then have "traversal_path_poses ?s1 = goal # rest" by simp
      with t1 show "tour_in_step (dispatch_goal goal rest ?s1)"
        by (rule tour_in_step_dispatch_goal)
    qed
    have w: "\<forall>goal rest. traversal_path_poses sn = goal # rest \<longrightarrow>
               traversal_path_poses (pop_and_send goal rest ?s1) = rest \<and>
               goal_sent_count (pop_and_send goal rest ?s1) = goal_sent_count sn \<and>
               \<not> tour_in_step (pop_and_send goal rest ?s1) \<and>
               traversal_path_poses (dispatch_goal goal rest ?s1) = rest \<and>
               goal_sent_count (dispatch_goal goal rest ?s1) = goal_sent_count sn + 1"
    proof (intro allI impI)
      fix goal rest assume "traversal_path_poses sn = goal # rest"
      then have p: "traversal_path_poses ?s1 = goal # rest" by simp
      note o = pop_and_send_out_of_step[OF t1 p]
      from dispatch_goal_views(1)[of goal rest ?s1]
      have "traversal_path_poses (dispatch_goal goal rest ?s1) = rest"
        "goal_sent_count (dispatch_goal goal rest ?s1) = goal_sent_count ?s1 + 1"
        by (simp_all add: tour_view_def)
      with o g1 show "traversal_path_poses (pop_and_send goal rest ?s1) = rest \<and>
               goal_sent_count (pop_and_send goal rest ?s1) = goal_sent_count sn \<and>
               \<not> tour_in_step (pop_and_send goal rest ?s1) \<and>
               traversal_path_poses (dispatch_goal goal rest ?s1) = rest \<and>
               goal_sent_count (dispatch_goal goal rest ?s1) = goal_sent_count sn + 1"
        by simp
    qed
    have r: "\<forall>s'. dispatch_iteration L (env n) sn = Next s' \<or>
                   dispatch_iteration L (env n) sn = Stop (Returned s') \<and>
                     \<not> is_shutdown ?s1 \<longrightarrow>
                   classified_round sn s'"
      by (intro allI impI) (rule dispatch_iteration_round)
    have q: "\<forall>s2. round_classification L (env n) sn = Some s2 \<longrightarrow>
               classified_round sn s2 \<and> counters_settled s2 \<and> tour_in_step s2 \<and>
               dispatch_iteration L (env n) sn = after_classification (env n) s2 \<and>
               classified_round sn (iteration_state (dispatch_iteration L (env n) sn)) \<and>
               counters_settled (iteration_state (dispatch_iteration L (env n) sn))"
    proof (intro allI impI)
      fix s2 assume rc: "round_classification L (env n) sn = Some s2"
      note k = round_classification_round[OF rc]
      have "counters_settled s2" using k(1) c(1) by (rule classified_round_settled)
      moreover have "tour_in_step s2" using k(1) c(2) by (rule classified_round_tour)
      moreover have "counters_settled (iteration_state (dispatch_iteration L (env n) sn))"
        using k(3) c(1) by (rule classified_round_settled)
      ultimately show "classified_round sn s2 \<and> counters_settled s2 \<and> tour_in_step s2 \<and>
               dispatch_iteration L (env n) sn = after_classification (env n) s2 \<and>
               classified_round sn (iteration_state (dispatch_iteration L (env n) sn)) \<and>
               counters_settled (iteration_state (dispatch_iteration L (env n) sn))"
        using k by simp
    qed
    show ?thesis by (intro conjI c d w r q)
  qed
  have fin: "tour_in_step (outcome_state (dispatch_loop L env 0 ?start))"
    using b(2) by (rule dispatch_loop_tour)
  have ret: "\<forall>sf. dispatch_loop L env 0 ?start = Returned sf \<longrightarrow> counters_settled sf"
    using b(1) by (auto intro: dispatch_loop_settled)
  have "\<forall>n sn. loop_head L env 0 ?start n = Some sn \<longrightarrow>
            counters_settled sn \<and> tour_in_step sn \<and> goal_sent_count sn = int n \<and>
            num_goals sn = Some (int (length poses)) \<and>
            (\<forall>goal rest. traversal_path_poses sn = goal # rest \<longrightarrow>
               tour_in_step (dispatch_goal goal rest
                 (run_callbacks L (callbacks_before (env n)) sn))) \<and>
            (\<forall>goal rest. traversal_path_poses sn = goal # rest \<longrightarrow>
               traversal_path_poses (pop_and_send goal rest
                 (run_callbacks L (callbacks_before (env n)) sn)) = rest \<and>
               goal_sent_count (pop_and_send goal rest
                 (run_callbacks L (callbacks_before (env n)) sn)) = goal_sent_count sn \<and>
               \<not> tour_in_step (pop_and_send goal rest
                 (run_callbacks L (callbacks_before (env n)) sn)) \<and>
               traversal_path_poses (dispatch_goal goal rest
                 (run_callbacks L (callbacks_before (env n)) sn)) = rest \<and>
               goal_sent_count (dispatch_goal goal rest
                 (run_callbacks L (callbacks_before (env n)) sn)) = goal_sent_count sn + 1) \<and>
            (\<forall>s'. dispatch_iteration L (env n) sn = Next s' \<or>
                   dispatch_iteration L (env n) sn = Stop (Returned s') \<and>
                     \<not> is_shutdown (run_callbacks L (callbacks_before (env n)) sn) \<longrightarrow>
                   classified_round sn s') \<and>
            (\<forall>s2. round_classification L (env n) sn = Some s2 \<longrightarrow>
               classified_round sn s2 \<and> counters_settled s2 \<and> tour_in_step s2 \<and>
               dispatch_iteration L (env n) sn = after_classification (env n) s2 \<and>
               classified_round sn (iteration_state (dispatch_iteration L (env n) sn)) \<and>
               counters_settled (iteration_state (dispatch_iteration L (env n) sn)))"
    by (intro allI impI) (rule heads)
  then show ?thesis using fin ret by (intro conjI)
qed

text \<open>
  A tour of three waypoints: the first goal is reached; the second is aborted and the
  pause after it is interrupted.
\<close>

lemma example_two_rounds:
  "\<exists>s' s2 s3.
     dispatch_iteration example_lib (example_rounds 0) example_start = Next s' \<and>
     goal_succeeded_count s' = 1 \<and>
     round_classification example_lib (example_rounds 1) s' = Some s2 \<and>
     dispatch_iteration example_lib (example_rounds 1) s' = Stop (Raised KeyboardInterrupt s3) \<and>
     goal_failed_count s3 = 1 \<and> goal_sent_count s3 = 2 \<and> length (traversal_path_poses s3) = 1"
  by (simp add: example_defs round_classification_def)

theorem dispatcher_counters_witness:
  "goal_sent_count (init_supervisor (1/2)) = 0 \<and>
   goal_succeeded_count (init_supervisor (1/2)) = 0 \<and>
   goal_failed_count (init_supervisor (1/2)) = 0 \<and>
   (\<exists>sn s3. loop_head example_lib example_rounds 0
            (begin_dispatch [pose_at 1 0, pose_at 2 0, pose_at 3 0] (init_supervisor (1/2))) 1 =
              Some sn \<and>
         counters_settled sn \<and> tour_in_step sn \<and> goal_sent_count sn = 1 \<and>
         goal_succeeded_count sn = 1 \<and> num_goals sn = Some 3 \<and>
         dispatch_iteration example_lib (example_rounds 1) sn =
           Stop (Raised KeyboardInterrupt s3) \<and>
         classified_round sn s3 \<and> counters_settled s3 \<and> goal_failed_count s3 = 1)"
proof -
  let ?init = "init_supervisor (1/2)"
  let ?start = "begin_dispatch [pose_at 1 0, pose_at 2 0, pose_at 3 0] ?init"
  have z: "goal_sent_count ?init = 0" "goal_succeeded_count ?init = 0" "goal_failed_count ?init = 0"
    by (simp_all add: init_supervisor_def)
  from example_two_rounds obtain s' s2 s3 where
    s': "dispatch_iteration example_lib (example_rounds 0) ?start = Next s'"
    and one: "goal_succeeded_count s' = 1"
    and rc: "round_classification example_lib (example_rounds 1) s' = Some s2"
    and it: "dispatch_iteration example_lib (example_rounds 1) s' =
               Stop (Raised KeyboardInterrupt s3)"
    and f: "goal_failed_count s3 = 1"
    unfolding example_start_def by blast
  from s' have h: "loop_head example_lib example_rounds 0 ?start 1 = Some s'" by simp
  note T = dispatcher_counters[OF z, of example_lib example_rounds
      "[pose_at 1 0, pose_at 2 0, pose_at 3 0]", THEN conjunct1, rule_format, OF h]
  have a: "counters_settled s'" "tour_in_step s'" "goal_sent_count s' = 1"
    "num_goals s' = Some 3"
    using T by simp_all
  note Q = T[THEN conjunct2, THEN conjunct2, THEN conjunct2, THEN conjunct2, THEN conjunct2,
      THEN conjunct2, THEN conjunct2, rule_format, OF rc]
  have "classified_round s'
                 (iteration_state (dispatch_iteration example_lib (example_rounds 1) s')) \<and>
               counters_settled
                 (iteration_state (dispatch_iteration example_lib (example_rounds 1) s'))"
    by (rule Q[THEN conjunct2, THEN conjunct2, THEN conjunct2, THEN conjunct2])
  then have c: "classified_round s' s3" "counters_settled s3"
    unfolding it by (simp_all add: iteration_state_def outcome_state_def)
  show ?thesis using z h a one it c f by blast
qed

section \<open>What the steps of a run leave unchanged\<close>

text \<open>
  The files that cannot be written and the CSV files written: no callback and no step
  of \<^verbatim>\<open>start_run\<close> touches them.
\<close>

definition files_view :: "supervisor \<Rightarrow> string list \<times> (string \<times> real list list) list" where
  "files_view s = (unwritable s, csv_files s)"

text \<open>The goals counted and sent: callbacks leave them alone.\<close>

definition sent_view :: "supervisor \<Rightarrow> int \<times> pose list" where
  "sent_view s = (goal_sent_count s, sent_goals s)"

lemma run_callback_files [simp]:
  "files_view (run_callback L cb s) = files_view s"
  "sent_view (run_callback L cb s) = sent_view s"
proof -
  have "files_view (run_callback L cb s) = files_view s \<and>
        sent_view (run_callback L cb s) = sent_view s"
  proof (cases cb)
    case (AmclParticles msg)
    obtain ls where
      "outcome_state (amcl_particles_callback L msg s) = s\<lparr>amcl_particles_file := ls\<rparr>"
      using amcl_particles_callback_fields by blast
    with AmclParticles show ?thesis by (simp add: files_view_def sent_view_def)
  next
    case (PsSnapshotTimer results)
    obtain files n where "outcome_state (ps_snapshot_timer_callback results s) =
       s\<lparr>ps_snapshot_files := files, ps_snapshot_count := n\<rparr>"
      using ps_snapshot_timer_callback_fields by blast
    with PsSnapshotTimer show ?thesis by (simp add: files_view_def sent_view_def)
  qed (simp_all add: files_view_def sent_view_def ground_truth_pose_callback_def
        run_timeout_callback_def signal_shutdown_def write_event_def scan_callback_def
        estimated_pose_correction_callback_def write_estimated_pose_timer_callback_def
        outcome_state_def Let_def split: sum.splits)
  then show "files_view (run_callback L cb s) = files_view s"
    and "sent_view (run_callback L cb s) = sent_view s"
    by simp_all
qed

lemma run_callbacks_files [simp]:
  "files_view (run_callbacks L cbs s) = files_view s"
  "sent_view (run_callbacks L cbs s) = sent_view s"
  unfolding run_callbacks_def by (induction cbs arbitrary: s) simp_all

lemma write_event_files [simp]:
  "files_view (write_event e s) = files_view s" "sent_view (write_event e s) = sent_view s"
  by (simp_all add: files_view_def sent_view_def write_event_def)

lemma signal_shutdown_files [simp]:
  "files_view (signal_shutdown r s) = files_view s"
  "sent_view (signal_shutdown r s) = sent_view s"
  by (simp_all add: files_view_def sent_view_def signal_shutdown_def)

lemma ros_shutdown_callback_files [simp]:
  "files_view (ros_shutdown_callback s) = files_view s"
  "sent_view (ros_shutdown_callback s) = sent_view s"
  by (simp_all add: ros_shutdown_callback_def)

lemma dispatch_goal_files [simp]:
  "files_view (dispatch_goal goal rest s) = files_view s"
  by (simp add: dispatch_goal_def pop_and_send_def files_view_def write_event_def Let_def)

lemma classify_result_files [simp]:
  "files_view (outcome_state (classify_result status goal s)) = files_view s"
  by (simp add: classify_result_def outcome_state_def files_view_def write_event_def Let_def
      split: option.splits)

lemma after_classification_files [simp]:
  "files_view (iteration_state (after_classification a s)) = files_view s"
  by (simp add: after_classification_def iteration_state_def outcome_state_def files_view_def
      write_event_def signal_shutdown_def Let_def split: option.splits)

lemma await_result_files [simp]:
  "files_view (iteration_state (await_result L a goal s)) = files_view s"
proof (cases "classify_result (get_state a) goal (run_callbacks L (callbacks_waiting a) s)")
  case (Returned s2)
  have "files_view (outcome_state (classify_result (get_state a) goal
          (run_callbacks L (callbacks_waiting a) s))) = files_view s"
    by (simp only: classify_result_files run_callbacks_files)
  then have "files_view s2 = files_view s" by (simp add: Returned outcome_state_def)
  with Returned show ?thesis
    by (simp add: await_result_def iteration_state_def[of "Stop _"] outcome_state_def Let_def
        split: sum.splits bool.splits)
next
  case (Raised e s2)
  have "files_view (outcome_state (classify_result (get_state a) goal
          (run_callbacks L (callbacks_waiting a) s))) = files_view s"
    by (simp only: classify_result_files run_callbacks_files)
  then have "files_view s2 = files_view s" by (simp add: Raised outcome_state_def)
  with Raised show ?thesis
    by (simp add: await_result_def iteration_state_def outcome_state_def Let_def
        split: sum.splits bool.splits)
qed

lemma dispatch_iteration_files [simp]:
  "files_view (iteration_state (dispatch_iteration L a s)) = files_view s"
proof (cases "is_shutdown (run_callbacks L (callbacks_before a) s) \<or>
              wait_for_server a \<noteq> Inr True \<or>
              traversal_path_poses (run_callbacks L (callbacks_before a) s) = []")
  case True
  then show ?thesis
    by (auto simp: dispatch_iteration_def iteration_state_def outcome_state_def Let_def
        split: sum.splits bool.splits list.splits)
next
  case False
  then obtain goal rest where
    "traversal_path_poses (run_callbacks L (callbacks_before a) s) = goal # rest"
    by (cases "traversal_path_poses (run_callbacks L (callbacks_before a) s)") auto
  with False have "dispatch_iteration L a s =
      await_result L a goal (dispatch_goal goal rest (run_callbacks L (callbacks_before a) s))"
    by (auto simp: dispatch_iteration_def Let_def split: sum.splits bool.splits)
  then show ?thesis by simp
qed

lemma dispatch_loop_files [simp]:
  "files_view (outcome_state (dispatch_loop L env k s)) = files_view s"
proof (induction L env k s rule: dispatch_loop.induct)
  case (1 L env k s)
  have v: "files_view (iteration_state (dispatch_iteration L (env k) s)) = files_view s"
    by simp
  show ?case
  proof (cases "dispatch_iteration L (env k) s")
    case (Next s')
    with v have "files_view s' = files_view s" by (simp add: iteration_state_def)
    with "1.IH"[OF Next] Next show ?thesis by (simp add: dispatch_loop.simps[of L env k s])
  next
    case (Stop r)
    with v show ?thesis by (simp add: dispatch_loop.simps[of L env k s] iteration_state_def)
  qed
qed

lemma begin_dispatch_files [simp]:
  "files_view (begin_dispatch poses s) = files_view s"
  "sent_view (begin_dispatch poses s) = sent_view s"
  by (simp_all add: begin_dispatch_def files_view_def sent_view_def write_event_def Let_def)

lemma plan_run_files [simp]:
  "files_view (outcome_state (plan_run env s)) = files_view s"
  "sent_view (outcome_state (plan_run env s)) = sent_view s"
  by (simp_all add: plan_run_def outcome_state_def Let_def split: sum.splits)

lemma wait_for_first_scan_files:
  "wait_for_first_scan L sleeps s = Some s0 \<Longrightarrow>
     files_view s0 = files_view s \<and> sent_view s0 = sent_view s"
  by (induction sleeps arbitrary: s) (auto split: if_splits)

lemma start_run_files:
  assumes "start_run L env s = Some r"
  shows "files_view (outcome_state r) = files_view s"
proof -
  from assms obtain s0 where w: "wait_for_first_scan L (env_startup env) s = Some s0"
    and r: "r = (case plan_run env s0 of
                  Raised e s1 \<Rightarrow> Raised e s1
                | Returned s1 \<Rightarrow> dispatch_loop L (env_attempts env) 0 s1)"
    by (auto simp: start_run_def split: option.splits)
  have p: "files_view (outcome_state (plan_run env s0)) = files_view s0" by simp
  have "files_view (outcome_state r) = files_view s0"
  proof (cases "plan_run env s0")
    case (Returned s1)
    with p have "files_view s1 = files_view s0" by (simp add: outcome_state_def)
    with Returned r show ?thesis by simp
  next
    case (Raised e s1)
    with p r show ?thesis by simp
  qed
  with wait_for_first_scan_files[OF w] show ?thesis by simp
qed

text \<open>When the dispatch loop returns, the node is shut down: \<^verbatim>\<open>rospy.spin()\<close> returns.\<close>

lemma dispatch_iteration_returned_shutdown:
  assumes "dispatch_iteration L a s = Stop (Returned sf)"
  shows "is_shutdown sf"
proof (cases "is_shutdown (run_callbacks L (callbacks_before a) s)")
  case True
  with assms show ?thesis by (simp add: dispatch_iteration_def Let_def)
next
  case False
  with assms obtain goal s1 where aw: "await_result L a goal s1 = Stop (Returned sf)"
    by (auto simp: dispatch_iteration_def Let_def split: sum.splits bool.splits list.splits)
  then obtain s2 where "after_classification a s2 = Stop (Returned sf)"
    by (auto simp: await_result_def Let_def split: sum.splits bool.splits outcome.splits)
  then show ?thesis
    by (auto simp: after_classification_def Let_def signal_shutdown_def is_shutdown_def
        split: if_splits option.splits)
qed

lemma dispatch_loop_returned_shutdown:
  assumes "dispatch_loop L env k s = Returned sf"
  shows "is_shutdown sf"
  using assms
proof (induction L env k s rule: dispatch_loop.induct)
  case (1 L env k s)
  show ?case
  proof (cases "dispatch_iteration L (env k) s")
    case (Next s')
    with "1.IH"[OF Next] "1.prems" show ?thesis by (simp add: dispatch_loop.simps[of L env k s])
  next
    case (Stop r)
    with "1.prems" have "dispatch_iteration L (env k) s = Stop (Returned sf)"
      by (simp add: dispatch_loop.simps[of L env k s])
    then show ?thesis by (rule dispatch_iteration_returned_shutdown)
  qed
qed

text \<open>The loop from the head of a later round.\<close>

lemma dispatch_loop_from_head:
  "loop_head L env k s n = Some sn \<Longrightarrow> dispatch_loop L env k s = dispatch_loop L env (k + n) sn"
proof (induction n arbitrary: k s)
  case 0
  then show ?case by simp
next
  case (Suc n)
  from Suc.prems obtain s' where it: "dispatch_iteration L (env k) s = Next s'"
    and rest: "loop_head L env (Suc k) s' n = Some sn"
    by (auto split: iteration.splits)
  from Suc.IH[OF rest] it show ?case by (simp add: dispatch_loop.simps[of L env k s])
qed

text \<open>
  The goal of a round and the state when \<^verbatim>\<open>wait_for_result\<close> is over, lines 223 to
  244, for a round that gets there: the node is not shut down, the server answers and
  the tour is not empty.
\<close>

definition round_dispatch :: "pylib \<Rightarrow> attempt \<Rightarrow> supervisor \<Rightarrow> (pose \<times> supervisor) option" where
  "round_dispatch L a s =
     (let s1 = run_callbacks L (callbacks_before a) s in
      if is_shutdown s1 \<or> wait_for_server a \<noteq> Inr True then None
      else
        (case traversal_path_poses s1 of
           [] \<Rightarrow> None
         | goal # rest \<Rightarrow>
             Some (goal, run_callbacks L (callbacks_waiting a) (dispatch_goal goal rest s1))))"

lemma round_dispatch_iteration:
  assumes "round_dispatch L a s = Some (goal, sw)"
  shows "dispatch_iteration L a s =
     (case wait_for_result a of
        Inl e \<Rightarrow> Stop (Raised e sw)
      | Inr False \<Rightarrow>
          Stop (Raised (RunFailException ''waypoint_timeout'')
                 (write_event ''supervisor_finished'' (write_event ''waypoint_timeout'' sw)))
      | Inr True \<Rightarrow>
          (case classify_result (get_state a) goal sw of
             Raised e s2 \<Rightarrow> Stop (Raised e s2)
           | Returned s2 \<Rightarrow> after_classification a s2))"
proof -
  let ?s1 = "run_callbacks L (callbacks_before a) s"
  from assms have sd: "\<not> is_shutdown ?s1" and ws: "wait_for_server a = Inr True"
    by (auto simp: round_dispatch_def Let_def split: if_splits)
  from assms sd ws obtain rest where gr: "traversal_path_poses ?s1 = goal # rest"
    and sw: "sw = run_callbacks L (callbacks_waiting a) (dispatch_goal goal rest ?s1)"
    by (auto simp: round_dispatch_def Let_def split: list.splits)
  have "dispatch_iteration L a s = await_result L a goal (dispatch_goal goal rest ?s1)"
    using sd ws gr by (simp add: dispatch_iteration_def Let_def)
  moreover have "await_result L a goal (dispatch_goal goal rest ?s1) =
     (case wait_for_result a of
        Inl e \<Rightarrow> Stop (Raised e sw)
      | Inr False \<Rightarrow>
          Stop (Raised (RunFailException ''waypoint_timeout'')
                 (write_event ''supervisor_finished'' (write_event ''waypoint_timeout'' sw)))
      | Inr True \<Rightarrow>
          (case classify_result (get_state a) goal sw of
             Raised e s2 \<Rightarrow> Stop (Raised e s2)
           | Returned s2 \<Rightarrow> after_classification a s2))"
    unfolding sw by (simp add: await_result_def Let_def)
  ultimately show ?thesis by (rule trans)
qed

lemma round_dispatch_sent:
  assumes "round_dispatch L a s = Some (goal, sw)"
  shows "traversal_path_poses s = goal # traversal_path_poses sw"
    and "goal_sent_count sw = goal_sent_count s + 1"
    and "sent_goals sw = sent_goals s @ [goal]"
    and "goal_succeeded_count sw = goal_succeeded_count s"
    and "goal_failed_count sw = goal_failed_count s"
    and "unwritable sw = unwritable s"
proof -
  let ?s1 = "run_callbacks L (callbacks_before a) s"
  from assms obtain rest where gr: "traversal_path_poses ?s1 = goal # rest"
    and sw: "sw = run_callbacks L (callbacks_waiting a) (dispatch_goal goal rest ?s1)"
    by (auto simp: round_dispatch_def Let_def split: if_splits list.splits)
  let ?d = "dispatch_goal goal rest ?s1"
  have "tour_view sw = tour_view ?d" unfolding sw by simp
  also have "\<dots> = (goal_sent_count ?s1 + 1, num_goals ?s1, rest)"
    by (rule dispatch_goal_views(1))
  also have "\<dots> = (goal_sent_count s + 1, num_goals s, rest)"
    using run_callbacks_views(1)[of L "callbacks_before a" s] by (simp add: tour_view_def)
  finally have t: "tour_view sw = (goal_sent_count s + 1, num_goals s, rest)" .
  have "class_view sw = class_view ?d" unfolding sw by simp
  also have "\<dots> = class_view ?s1" by (rule dispatch_goal_views(2))
  also have "\<dots> = class_view s" by simp
  finally have c: "class_view sw = class_view s" .
  have "sent_view ?d = (goal_sent_count ?s1 + 1, sent_goals ?s1 @ [goal])"
    by (simp add: dispatch_goal_def pop_and_send_def sent_view_def write_event_def Let_def)
  moreover have "sent_view ?s1 = sent_view s" by simp
  moreover have "sent_view sw = sent_view ?d" unfolding sw by simp
  ultimately have v: "sent_view sw = (goal_sent_count s + 1, sent_goals s @ [goal])"
    by (simp add: sent_view_def)
  have f: "files_view sw = files_view s" unfolding sw by simp
  from gr have "traversal_path_poses s = goal # rest" by simp
  with t show "traversal_path_poses s = goal # traversal_path_poses sw"
    by (simp add: tour_view_def)
  from t show "goal_sent_count sw = goal_sent_count s + 1" by (simp add: tour_view_def)
  from v show "sent_goals sw = sent_goals s @ [goal]" by (simp add: sent_view_def)
  from c show "goal_succeeded_count sw = goal_succeeded_count s"
    and "goal_failed_count sw = goal_failed_count s"
    by (simp_all add: class_view_def)
  from f show "unwritable sw = unwritable s" by (simp add: files_view_def)
qed

text \<open>\<^verbatim>\<open>start_run\<close> and \<^verbatim>\<open>main\<close> from the head of a round of the loop.\<close>

lemma start_run_from_head:
  assumes "wait_for_first_scan L (env_startup env) node = Some s0"
    and "plan_run env s0 = Returned s1"
    and "loop_head L (env_attempts env) 0 s1 n = Some sn"
  shows "start_run L env node = Some (dispatch_loop L (env_attempts env) n sn)"
  using assms dispatch_loop_from_head[OF assms(3)] by (simp add: start_run_def)

lemma main_start_run_raised:
  assumes "start_run L env node = Some (Raised e s)"
  shows "main L env (Inr node) =
     Some (case main_finally (snd (main_except (Raised e s))) of
             Raised e' s' \<Rightarrow> (Some e', Some s')
           | Returned s' \<Rightarrow> (fst (main_except (Raised e s)), Some s'))"
  using assms by (simp add: main_def main_try_def split: outcome.splits)

lemma main_start_run_returned:
  assumes "start_run L env node = Some (Returned s)"
  shows "is_shutdown s"
    and "main L env (Inr node) =
     Some (case main_finally s of
             Raised e' s' \<Rightarrow> (Some e', Some s')
           | Returned s' \<Rightarrow> (None, Some s'))"
proof -
  from assms obtain s0 where
    r: "(case plan_run env s0 of
           Raised e s1 \<Rightarrow> Raised e s1
         | Returned s1 \<Rightarrow> dispatch_loop L (env_attempts env) 0 s1) = Returned s"
    by (auto simp: start_run_def split: option.splits)
  then obtain s1 where "dispatch_loop L (env_attempts env) 0 s1 = Returned s"
    by (cases "plan_run env s0") simp_all
  then show sd: "is_shutdown s" by (rule dispatch_loop_returned_shutdown)
  show "main L env (Inr node) =
     Some (case main_finally s of
             Raised e' s' \<Rightarrow> (Some e', Some s')
           | Returned s' \<Rightarrow> (None, Some s'))"
    using assms sd
    by (simp add: main_def main_try_def spin_def main_except_def split: outcome.splits)
qed

section \<open>The classification of a goal that the navigation reports as succeeded\<close>

text \<open>
  The Euclidean distance between the position of the goal and the position of a
  ground-truth message.
\<close>

definition distance_from_goal :: "pose \<Rightarrow> odometry \<Rightarrow> real" where
  "distance_from_goal goal msg =
     sqrt ((pos_x (pose_position goal) - pos_x (pose_position (od_pose msg)))\<^sup>2 +
           (pos_y (pose_position goal) - pos_y (pose_position (od_pose msg)))\<^sup>2)"

text \<open>Lines 254 and 255; lines 258 and 259.\<close>

definition classified_succeeded :: "supervisor \<Rightarrow> supervisor" where
  "classified_succeeded s =
     (write_event ''target_pose_reached'' s)\<lparr>goal_succeeded_count := goal_succeeded_count s + 1\<rparr>"

definition classified_failed :: "supervisor \<Rightarrow> supervisor" where
  "classified_failed s =
     (write_event ''target_pose_not_reached'' s)\<lparr>goal_failed_count := goal_failed_count s + 1\<rparr>"

definition reclassified :: "pose \<Rightarrow> odometry \<Rightarrow> supervisor \<Rightarrow> supervisor" where
  "reclassified goal msg s =
     (if distance_from_goal goal msg < goal_tolerance s then classified_succeeded s
      else classified_failed s)"




lemma reclassified_path [simp]:
  "traversal_path_poses (reclassified goal msg s) = traversal_path_poses s"
  by (simp add: reclassified_def classified_succeeded_def classified_failed_def write_event_def)









section \<open>A goal reported as succeeded before any ground-truth message\<close>

definition is_ground_truth_pose :: "callback \<Rightarrow> bool" where
  "is_ground_truth_pose cb = (case cb of GroundTruthPose msg \<Rightarrow> True | _ \<Rightarrow> False)"

lemma ground_truth_pose_callback_latest:
  "latest_ground_truth_pose_msg (ground_truth_pose_callback L msg s) = Some msg"
  by (simp add: ground_truth_pose_callback_def Let_def)

lemma ground_truth_pose_callback_before_run:
  "\<not> run_started s \<Longrightarrow>
     ground_truth_pose_callback L msg s = s\<lparr>latest_ground_truth_pose_msg := Some msg\<rparr>"
  by (simp add: ground_truth_pose_callback_def Let_def)

lemma run_callback_latest:
  assumes "\<not> is_ground_truth_pose cb"
  shows "latest_ground_truth_pose_msg (run_callback L cb s) = latest_ground_truth_pose_msg s"
proof (cases cb)
  case (AmclParticles msg)
  obtain ls where
    "outcome_state (amcl_particles_callback L msg s) = s\<lparr>amcl_particles_file := ls\<rparr>"
    using amcl_particles_callback_fields by blast
  with AmclParticles show ?thesis by simp
next
  case (PsSnapshotTimer results)
  obtain files n where "outcome_state (ps_snapshot_timer_callback results s) =
     s\<lparr>ps_snapshot_files := files, ps_snapshot_count := n\<rparr>"
    using ps_snapshot_timer_callback_fields by blast
  with PsSnapshotTimer show ?thesis by simp
next
  case (GroundTruthPose msg)
  with assms show ?thesis by (simp add: is_ground_truth_pose_def)
qed (simp_all add: run_timeout_callback_def signal_shutdown_def write_event_def
      scan_callback_def estimated_pose_correction_callback_def
      write_estimated_pose_timer_callback_def outcome_state_def Let_def split: sum.splits)

lemma run_callbacks_latest:
  assumes "list_all (\<lambda>cb. \<not> is_ground_truth_pose cb) cbs"
  shows "latest_ground_truth_pose_msg (run_callbacks L cbs s) = latest_ground_truth_pose_msg s"
  using assms unfolding run_callbacks_def
  by (induction cbs arbitrary: s) (simp_all add: run_callback_latest)

lemma classify_without_ground_truth:
  "latest_ground_truth_pose_msg s = None \<Longrightarrow>
     classify_result SUCCEEDED goal s = Raised AttributeError s"
  by (simp add: classify_result_def)

lemma dispatch_iteration_without_ground_truth:
  assumes "latest_ground_truth_pose_msg s = None"
    and "round_dispatch L a s0 = Some (goal, s)"
    and "wait_for_result a = Inr True" and "get_state a = SUCCEEDED"
  shows "dispatch_iteration L a s0 = Stop (Raised AttributeError s)"
  using round_dispatch_iteration[OF assms(2)] assms(3,4)
    classify_without_ground_truth[OF assms(1), of goal]
  by simp

text \<open>
  A round in which the navigation reports success and no ground-truth message has
  come, after the start of the loop with a tour of three waypoints.
\<close>

definition blind_round :: attempt where
  "blind_round =
     \<lparr>callbacks_before = [], wait_for_server = Inr True, callbacks_waiting = [],
      wait_for_result = Inr True, get_state = SUCCEEDED, sleep_interrupt = None\<rparr>"

definition blind_sent :: supervisor where
  "blind_sent = dispatch_goal (pose_at 1 0) [pose_at 2 0, pose_at 3 0] example_start"

text \<open>
  C10, as the specification words it, does not hold of the program: the error is not
  uncaught. In the round above the dispatch loop raises \<^verbatim>\<open>AttributeError\<close>, and the
  \<^verbatim>\<open>except\<close> clauses of \<^verbatim>\<open>main\<close> leave no exception: \<^verbatim>\<open>except Exception\<close>
  at line 50 has caught it.
\<close>

theorem attribute_error_caught_by_main:
  "dispatch_loop example_lib (\<lambda>k. blind_round) 0 example_start =
     Raised AttributeError blind_sent \<and>
   main_except (dispatch_loop example_lib (\<lambda>k. blind_round) 0 example_start) =
     (None, blind_sent)"
proof -
  have "dispatch_iteration example_lib blind_round example_start =
          Stop (Raised AttributeError blind_sent)"
    by (simp add: blind_round_def blind_sent_def example_defs)
  then have "dispatch_loop example_lib (\<lambda>k. blind_round) 0 example_start =
     Raised AttributeError blind_sent"
    by (simp add: dispatch_loop.simps[of example_lib "\<lambda>k. blind_round" 0 example_start])
  then show ?thesis by (simp add: main_except_def)
qed

text \<open>
  C10, amended. The state \<^verbatim>\<open>__init__\<close> leaves has no latest ground-truth message,
  and only \<^verbatim>\<open>ground_truth_pose_callback\<close> sets one: it does so at every message, and
  before the run has started that is all it does. Let \<^verbatim>\<open>s\<close> be the state when
  \<^verbatim>\<open>get_state()\<close> is read, with no latest ground-truth message. With the status
  \<^verbatim>\<open>SUCCEEDED\<close> line 251 raises \<^verbatim>\<open>AttributeError\<close> and the state stays as it is: no
  event is written and no counter of classified goals moves, while the goal has been
  sent and counted. The exception ends the round, the dispatch loop and
  \<^verbatim>\<open>start_run\<close>, which have no handler for it; the handler \<^verbatim>\<open>except Exception\<close> of
  \<^verbatim>\<open>main\<close> catches it, and \<^verbatim>\<open>main\<close> ends by the \<^verbatim>\<open>finally\<close> clause with no
  exception of the run left.
\<close>

theorem succeeded_without_ground_truth:
  assumes "latest_ground_truth_pose_msg s = None"
  shows "classify_result SUCCEEDED goal s = Raised AttributeError s \<and>
         (\<forall>L a s0. round_dispatch L a s0 = Some (goal, s) \<and> wait_for_result a = Inr True \<and>
            get_state a = SUCCEEDED \<longrightarrow>
            dispatch_iteration L a s0 = Stop (Raised AttributeError s) \<and>
            goal_sent_count s = goal_sent_count s0 + 1 \<and>
            sent_goals s = sent_goals s0 @ [goal] \<and>
            goal_succeeded_count s = goal_succeeded_count s0 \<and>
            goal_failed_count s = goal_failed_count s0) \<and>
         (\<forall>L env k s0. round_dispatch L (env k) s0 = Some (goal, s) \<and>
            wait_for_result (env k) = Inr True \<and> get_state (env k) = SUCCEEDED \<longrightarrow>
            dispatch_loop L env k s0 = Raised AttributeError s) \<and>
         (\<forall>L env node s0 s1 n sn.
            wait_for_first_scan L (env_startup env) node = Some s0 \<and>
            plan_run env s0 = Returned s1 \<and>
            loop_head L (env_attempts env) 0 s1 n = Some sn \<and>
            round_dispatch L (env_attempts env n) sn = Some (goal, s) \<and>
            wait_for_result (env_attempts env n) = Inr True \<and>
            get_state (env_attempts env n) = SUCCEEDED \<longrightarrow>
            start_run L env node = Some (Raised AttributeError s)) \<and>
         (\<forall>L env node. start_run L env node = Some (Raised AttributeError s) \<longrightarrow>
            main L env (Inr node) =
              Some (case main_finally s of
                      Raised e' s' \<Rightarrow> (Some e', Some s')
                    | Returned s' \<Rightarrow> (None, Some s'))) \<and>
         (\<forall>tol. latest_ground_truth_pose_msg (init_supervisor tol) = None) \<and>
         (\<forall>L cbs s'. list_all (\<lambda>cb. \<not> is_ground_truth_pose cb) cbs \<longrightarrow>
            latest_ground_truth_pose_msg (run_callbacks L cbs s') =
              latest_ground_truth_pose_msg s') \<and>
         (\<forall>L msg s'. latest_ground_truth_pose_msg (ground_truth_pose_callback L msg s') =
            Some msg) \<and>
         (\<forall>L msg s'. \<not> run_started s' \<longrightarrow>
            ground_truth_pose_callback L msg s' =
              s'\<lparr>latest_ground_truth_pose_msg := Some msg\<rparr>)"
proof -
  have c1: "classify_result SUCCEEDED goal s = Raised AttributeError s"
    using assms by (rule classify_without_ground_truth)
  have c2: "\<forall>L a s0. round_dispatch L a s0 = Some (goal, s) \<and> wait_for_result a = Inr True \<and>
            get_state a = SUCCEEDED \<longrightarrow>
            dispatch_iteration L a s0 = Stop (Raised AttributeError s) \<and>
            goal_sent_count s = goal_sent_count s0 + 1 \<and>
            sent_goals s = sent_goals s0 @ [goal] \<and>
            goal_succeeded_count s = goal_succeeded_count s0 \<and>
            goal_failed_count s = goal_failed_count s0"
  proof (intro allI impI)
    fix L and a :: attempt and s0
    assume h: "round_dispatch L a s0 = Some (goal, s) \<and> wait_for_result a = Inr True \<and>
            get_state a = SUCCEEDED"
    then have rd: "round_dispatch L a s0 = Some (goal, s)" by blast
    have "dispatch_iteration L a s0 = Stop (Raised AttributeError s)"
      using assms rd by (rule dispatch_iteration_without_ground_truth) (use h in blast)+
    then show "dispatch_iteration L a s0 = Stop (Raised AttributeError s) \<and>
            goal_sent_count s = goal_sent_count s0 + 1 \<and>
            sent_goals s = sent_goals s0 @ [goal] \<and>
            goal_succeeded_count s = goal_succeeded_count s0 \<and>
            goal_failed_count s = goal_failed_count s0"
      using round_dispatch_sent(2-5)[OF rd] by simp
  qed
  have c3: "\<forall>L env k s0. round_dispatch L (env k) s0 = Some (goal, s) \<and>
            wait_for_result (env k) = Inr True \<and> get_state (env k) = SUCCEEDED \<longrightarrow>
            dispatch_loop L env k s0 = Raised AttributeError s"
  proof (intro allI impI)
    fix L and env :: "nat \<Rightarrow> attempt" and k s0
    assume h: "round_dispatch L (env k) s0 = Some (goal, s) \<and>
            wait_for_result (env k) = Inr True \<and> get_state (env k) = SUCCEEDED"
    have "dispatch_iteration L (env k) s0 = Stop (Raised AttributeError s)"
      using assms by (rule dispatch_iteration_without_ground_truth) (use h in blast)+
    then show "dispatch_loop L env k s0 = Raised AttributeError s"
      by (simp add: dispatch_loop.simps[of L env k s0])
  qed
  have c3a: "\<forall>L env node s0 s1 n sn.
            wait_for_first_scan L (env_startup env) node = Some s0 \<and>
            plan_run env s0 = Returned s1 \<and>
            loop_head L (env_attempts env) 0 s1 n = Some sn \<and>
            round_dispatch L (env_attempts env n) sn = Some (goal, s) \<and>
            wait_for_result (env_attempts env n) = Inr True \<and>
            get_state (env_attempts env n) = SUCCEEDED \<longrightarrow>
            start_run L env node = Some (Raised AttributeError s)"
  proof (intro allI impI)
    fix L and env :: run_env and node s0 s1 n sn
    assume h: "wait_for_first_scan L (env_startup env) node = Some s0 \<and>
            plan_run env s0 = Returned s1 \<and>
            loop_head L (env_attempts env) 0 s1 n = Some sn \<and>
            round_dispatch L (env_attempts env n) sn = Some (goal, s) \<and>
            wait_for_result (env_attempts env n) = Inr True \<and>
            get_state (env_attempts env n) = SUCCEEDED"
    have "start_run L env node = Some (dispatch_loop L (env_attempts env) n sn)"
      by (rule start_run_from_head[where ?s0.0 = s0 and ?s1.0 = s1]) (use h in blast)+
    moreover have "dispatch_loop L (env_attempts env) n sn = Raised AttributeError s"
      using c3 h by blast
    ultimately show "start_run L env node = Some (Raised AttributeError s)" by simp
  qed
  have c3b: "\<forall>L env node. start_run L env node = Some (Raised AttributeError s) \<longrightarrow>
            main L env (Inr node) =
              Some (case main_finally s of
                      Raised e' s' \<Rightarrow> (Some e', Some s')
                    | Returned s' \<Rightarrow> (None, Some s'))"
  proof (intro allI impI)
    fix L and env :: run_env and node
    assume "start_run L env node = Some (Raised AttributeError s)"
    from main_start_run_raised[OF this]
    show "main L env (Inr node) =
              Some (case main_finally s of
                      Raised e' s' \<Rightarrow> (Some e', Some s')
                    | Returned s' \<Rightarrow> (None, Some s'))"
      by (simp add: main_except_def split: outcome.splits)
  qed
  have c4: "\<forall>tol. latest_ground_truth_pose_msg (init_supervisor tol) = None"
    by (simp add: init_supervisor_def)
  have c5: "\<forall>L cbs s'. list_all (\<lambda>cb. \<not> is_ground_truth_pose cb) cbs \<longrightarrow>
            latest_ground_truth_pose_msg (run_callbacks L cbs s') =
              latest_ground_truth_pose_msg s'"
    by (intro allI impI run_callbacks_latest)
  have c6: "\<forall>L msg s'. latest_ground_truth_pose_msg (ground_truth_pose_callback L msg s') =
            Some msg"
    by (intro allI ground_truth_pose_callback_latest)
  have c7: "\<forall>L msg s'. \<not> run_started s' \<longrightarrow>
            ground_truth_pose_callback L msg s' =
              s'\<lparr>latest_ground_truth_pose_msg := Some msg\<rparr>"
    by (intro allI impI ground_truth_pose_callback_before_run)
  show ?thesis by (intro conjI c1 c2 c3 c3a c3b c4 c5 c6 c7)
qed

theorem succeeded_without_ground_truth_witness:
  "latest_ground_truth_pose_msg blind_sent = None \<and>
   round_dispatch example_lib blind_round example_start =
     Some (pose_at 1 0, blind_sent) \<and>
   dispatch_loop example_lib (\<lambda>k. blind_round) 0 example_start =
     Raised AttributeError blind_sent \<and>
   goal_sent_count blind_sent = 1 \<and> goal_succeeded_count blind_sent = 0 \<and>
   goal_failed_count blind_sent = 0 \<and>
   run_events_file blind_sent = [''run_start'', ''target_pose_set'']"
proof -
  let ?a = "blind_round"
  have g: "latest_ground_truth_pose_msg blind_sent = None"
    and c: "goal_sent_count blind_sent = 1" "goal_succeeded_count blind_sent = 0"
      "goal_failed_count blind_sent = 0"
      "run_events_file blind_sent = [''run_start'', ''target_pose_set'']"
    by (simp_all add: blind_sent_def example_defs)
  have rd: "round_dispatch example_lib ?a example_start = Some (pose_at 1 0, blind_sent)"
    by (simp add: round_dispatch_def blind_round_def blind_sent_def example_start_def
        begin_dispatch_def init_supervisor_def write_event_def run_callbacks_def
        is_shutdown_def Let_def)
  have pre: "round_dispatch example_lib ((\<lambda>k. ?a) 0) example_start =
        Some (pose_at 1 0, blind_sent) \<and>
      wait_for_result ((\<lambda>k. ?a) 0) = Inr True \<and> get_state ((\<lambda>k. ?a) 0) = SUCCEEDED"
    using rd by (simp add: blind_round_def)
  have "dispatch_loop example_lib (\<lambda>k. ?a) 0 example_start = Raised AttributeError blind_sent"
    using succeeded_without_ground_truth[OF g, of "pose_at 1 0", THEN conjunct2,
        THEN conjunct2, THEN conjunct1, rule_format, OF pre] .
  with g rd c show ?thesis by simp
qed

end
